theory Spec2Isabelle
  imports Main
begin

section \<open>The memory the stack lives in\<close>

text \<open>
  \<^verbatim>\<open>stack.c\<close> implements a LIFO container as a \<^verbatim>\<open>struct Stack\<close> on the C heap that
  points to a \<^verbatim>\<open>void **\<close> buffer, also on the heap. Every public function takes a
  \<^verbatim>\<open>Stack *\<close> handle and mutates what it points to, so the model is an explicit store:
  a handle is an address, \<open>structs\<close> maps addresses to \<^verbatim>\<open>struct Stack\<close> objects and
  \<open>arrays\<close> maps addresses to \<^verbatim>\<open>void *\<close> arrays. Address \<open>0\<close> is \<^verbatim>\<open>NULL\<close>.

  The elements themselves are opaque to the stack (\<^verbatim>\<open>void *\<close>): only the caller's
  \<^verbatim>\<open>copy\<close>, \<^verbatim>\<open>free_func\<close> and \<^verbatim>\<open>cmp\<close> functions look behind an element pointer.
  Whatever these functions read and write is the component \<open>world\<close>, of an arbitrary
  type \<open>'w\<close>; the three functions are state transformers on it.
\<close>

type_synonym addr = nat

definition NULL :: addr where
  "NULL = 0"

text \<open>
  \<^verbatim>\<open>exit(EXIT_FAILURE)\<close> ends the program; dereferencing a pointer that does not point
  to an object of the right kind, indexing an array out of bounds and calling a
  \<^verbatim>\<open>NULL\<close> function pointer are undefined behaviour. Both are results of the model.
\<close>

datatype error = ExitFailure | UndefinedBehaviour

text \<open>
  \<^verbatim>\<open>struct Stack\<close>. The source documents \<^verbatim>\<open>copy_func\<close> and \<^verbatim>\<open>free_func\<close> as
  "must not be NULL" and \<^verbatim>\<open>cmp_func\<close> as "optional, may be NULL".
\<close>

record 'w Stack =
  s_data :: addr
  s_size :: nat
  s_capacity :: nat
  s_copy :: "addr \<Rightarrow> 'w \<Rightarrow> addr \<times> 'w"
  s_free_func :: "addr \<Rightarrow> 'w \<Rightarrow> 'w"
  s_cmp :: "(addr \<Rightarrow> addr \<Rightarrow> 'w \<Rightarrow> int) option"

text \<open>
  The store. \<open>cells\<close> holds \<^verbatim>\<open>size_t\<close> objects (the target of \<^verbatim>\<open>out_size\<close>).
  The allocator hands out the addresses above \<open>brk\<close> one after the other, has
  \<open>avail\<close> bytes left, and returns storage whose contents are indeterminate: slot \<open>i\<close>
  of a block allocated at address \<open>a\<close> initially holds \<open>junk a i\<close>. Whether
  \<^verbatim>\<open>realloc\<close> resizes a block where it is or moves it is the allocator's choice, not
  the program's: \<open>in_place p bytes\<close> tells whether the block at \<open>p\<close> stays where it is
  when it is resized to \<open>bytes\<close> bytes. The program resizes a block only to make it
  larger and no address is handed out twice, so it never asks twice for the same block
  and size: a function of the two is as general as a choice made at every call.
\<close>

record 'w mem =
  structs :: "addr \<rightharpoonup> 'w Stack"
  arrays :: "addr \<rightharpoonup> addr list"
  cells :: "addr \<rightharpoonup> nat"
  world :: 'w
  brk :: addr
  avail :: nat
  junk :: "addr \<Rightarrow> nat \<Rightarrow> addr"
  in_place :: "addr \<Rightarrow> nat \<Rightarrow> bool"

subsection \<open>\<^verbatim>\<open>size_t\<close> and the allocator\<close>

text \<open>
  The data model is LP64: \<^verbatim>\<open>size_t\<close> has 64 bits, a pointer has 8 bytes and
  \<^verbatim>\<open>struct Stack\<close> has 48. Sizes are natural numbers and every \<^verbatim>\<open>size_t\<close>
  operation of the source that can wrap is written with its wrap-around.
\<close>

definition SIZE_MOD :: nat where
  "SIZE_MOD = 2 ^ 64"

definition PTRDIFF_MAX :: nat where
  "PTRDIFF_MAX = 2 ^ 63 - 1"

definition PTR_BYTES :: nat where
  "PTR_BYTES = 8"

definition STACK_BYTES :: nat where
  "STACK_BYTES = 48"

definition STACK_INITIAL_CAPACITY :: nat where
  "STACK_INITIAL_CAPACITY = 8"

definition size_mul :: "nat \<Rightarrow> nat \<Rightarrow> nat" where
  "size_mul a b = (a * b) mod SIZE_MOD"

definition size_inc :: "nat \<Rightarrow> nat" where
  "size_inc a = (a + 1) mod SIZE_MOD"

text \<open>
  \<^verbatim>\<open>malloc\<close> fails (returns \<^verbatim>\<open>NULL\<close>) when the request exceeds \<^verbatim>\<open>PTRDIFF_MAX\<close>, as
  glibc does, or the bytes that are left. \<open>reserve\<close> is the part common to every
  allocation: the choice of the address and the accounting.
\<close>

definition reserve :: "nat \<Rightarrow> 'w mem \<Rightarrow> (addr \<times> 'w mem) option" where
  "reserve bytes m =
     (if PTRDIFF_MAX < bytes \<or> avail m < bytes then None
      else Some (Suc (brk m), m\<lparr>brk := Suc (brk m), avail := avail m - bytes\<rparr>))"

definition malloc_array :: "nat \<Rightarrow> 'w mem \<Rightarrow> addr \<times> 'w mem" where
  "malloc_array bytes m =
     (case reserve bytes m of
        None \<Rightarrow> (NULL, m)
      | Some (a, m1) \<Rightarrow>
          (a, m1\<lparr>arrays := (arrays m1)(a \<mapsto> map (junk m a) [0..<bytes div PTR_BYTES])\<rparr>))"

text \<open>
  \<^verbatim>\<open>realloc(p, bytes)\<close>: \<^verbatim>\<open>malloc\<close> when \<open>p\<close> is \<^verbatim>\<open>NULL\<close>; undefined when \<open>p\<close> is not an
  allocated array; with \<open>bytes = 0\<close> it frees the block and returns \<^verbatim>\<open>NULL\<close> (glibc).
  Otherwise the allocator either resizes the block where it is and returns \<open>p\<close> itself,
  which takes only the bytes that the block does not have yet, or it allocates a new
  block, copies the old contents as far as they fit, frees the old block and returns
  the new address. In both cases the old contents are kept up to the smaller of the two
  sizes and the rest is indeterminate. On failure the old block is untouched.
\<close>

definition realloc :: "addr \<Rightarrow> nat \<Rightarrow> 'w mem \<Rightarrow> error + addr \<times> 'w mem" where
  "realloc p bytes m =
     (if p = NULL then Inr (malloc_array bytes m)
      else case arrays m p of
        None \<Rightarrow> Inl UndefinedBehaviour
      | Some old \<Rightarrow>
          if bytes = 0 then
            Inr (NULL, m\<lparr>arrays := (arrays m)(p := None),
                         avail := avail m + PTR_BYTES * length old\<rparr>)
          else if in_place m p bytes then
            (if PTRDIFF_MAX < bytes \<or> avail m + PTR_BYTES * length old < bytes
             then Inr (NULL, m)
             else Inr (p, m\<lparr>arrays := (arrays m)
                             (p \<mapsto> take (bytes div PTR_BYTES) old @
                                  map (junk m p) [length old..<bytes div PTR_BYTES]),
                           avail := avail m + PTR_BYTES * length old - bytes\<rparr>))
          else (case reserve bytes m of
            None \<Rightarrow> Inr (NULL, m)
          | Some (q, m1) \<Rightarrow>
              Inr (q, m1\<lparr>arrays := (arrays m1)
                           (p := None,
                            q \<mapsto> take (bytes div PTR_BYTES) old @
                                 map (junk m q) [length old..<bytes div PTR_BYTES]),
                         avail := avail m1 + PTR_BYTES * length old\<rparr>)))"

section \<open>The stack operations\<close>

text \<open>\<^verbatim>\<open>static void grow(Stack *stack)\<close>\<close>

definition grow :: "addr \<Rightarrow> 'w mem \<Rightarrow> error + 'w mem" where
  "grow stack m =
     (case structs m stack of
        None \<Rightarrow> Inl UndefinedBehaviour
      | Some s \<Rightarrow>
          let new_capacity =
                (if s_capacity s \<noteq> 0 then size_mul (s_capacity s) 2
                 else STACK_INITIAL_CAPACITY)
          in (case realloc (s_data s) (size_mul new_capacity PTR_BYTES) m of
                Inl e \<Rightarrow> Inl e
              | Inr (new_data, m1) \<Rightarrow>
                  if new_data = NULL then Inl ExitFailure
                  else Inr (m1\<lparr>structs := (structs m1)
                             (stack \<mapsto> s\<lparr>s_data := new_data, s_capacity := new_capacity\<rparr>)\<rparr>)))"

text \<open>\<^verbatim>\<open>Stack *new_stack(StackCopyFunc, StackFreeFunc, StackCompareFunc)\<close>\<close>

definition new_stack ::
  "(addr \<Rightarrow> 'w \<Rightarrow> addr \<times> 'w) \<Rightarrow> (addr \<Rightarrow> 'w \<Rightarrow> 'w) \<Rightarrow> (addr \<Rightarrow> addr \<Rightarrow> 'w \<Rightarrow> int) option \<Rightarrow>
   'w mem \<Rightarrow> error + addr \<times> 'w mem" where
  "new_stack copy_func free_f cmp_func m =
     (case reserve STACK_BYTES m of
        None \<Rightarrow> Inl ExitFailure
      | Some (stack, m1) \<Rightarrow>
          (case malloc_array (size_mul STACK_INITIAL_CAPACITY PTR_BYTES) m1 of
             (d, m2) \<Rightarrow>
               if d = NULL then Inl ExitFailure
               else Inr (stack, m2\<lparr>structs := (structs m2)
                          (stack \<mapsto> \<lparr>s_data = d, s_size = 0,
                                     s_capacity = STACK_INITIAL_CAPACITY,
                                     s_copy = copy_func, s_free_func = free_f,
                                     s_cmp = cmp_func\<rparr>)\<rparr>)))"

text \<open>
  \<^verbatim>\<open>void push(Stack *stack, const void *element)\<close>. The copy function runs on the
  world; the pointer it returns is stored at index \<^verbatim>\<open>size\<close>.
\<close>

definition push :: "addr \<Rightarrow> addr \<Rightarrow> 'w mem \<Rightarrow> error + 'w mem" where
  "push stack element m =
     (if stack = NULL then Inr m
      else case structs m stack of
        None \<Rightarrow> Inl UndefinedBehaviour
      | Some s0 \<Rightarrow>
          (case (if s_size s0 = s_capacity s0 then grow stack m else Inr m) of
             Inl e \<Rightarrow> Inl e
           | Inr m1 \<Rightarrow>
               (case structs m1 stack of
                  None \<Rightarrow> Inl UndefinedBehaviour
                | Some s \<Rightarrow>
                    (case arrays m1 (s_data s) of
                       None \<Rightarrow> Inl UndefinedBehaviour
                     | Some buf \<Rightarrow>
                         if s_size s < length buf then
                           (case s_copy s element (world m1) of
                              (c, w) \<Rightarrow>
                                Inr (m1\<lparr>world := w,
                                        arrays := (arrays m1)
                                          (s_data s \<mapsto> buf[s_size s := c]),
                                        structs := (structs m1)
                                          (stack \<mapsto> s\<lparr>s_size := size_inc (s_size s)\<rparr>)\<rparr>))
                         else Inl UndefinedBehaviour))))"

text \<open>\<^verbatim>\<open>void *pop(Stack *stack)\<close>\<close>

definition pop :: "addr \<Rightarrow> 'w mem \<Rightarrow> error + addr \<times> 'w mem" where
  "pop stack m =
     (if stack = NULL then Inr (NULL, m)
      else case structs m stack of
        None \<Rightarrow> Inl UndefinedBehaviour
      | Some s \<Rightarrow>
          if s_size s = 0 then Inr (NULL, m)
          else (case arrays m (s_data s) of
            None \<Rightarrow> Inl UndefinedBehaviour
          | Some buf \<Rightarrow>
              if s_size s - 1 < length buf then
                Inr (buf ! (s_size s - 1),
                     m\<lparr>arrays := (arrays m)(s_data s \<mapsto> buf[s_size s - 1 := NULL]),
                       structs := (structs m)(stack \<mapsto> s\<lparr>s_size := s_size s - 1\<rparr>)\<rparr>)
              else Inl UndefinedBehaviour))"

text \<open>\<^verbatim>\<open>void *peek(const Stack *stack)\<close>\<close>

definition peek :: "addr \<Rightarrow> 'w mem \<Rightarrow> error + addr" where
  "peek stack m =
     (if stack = NULL then Inr NULL
      else case structs m stack of
        None \<Rightarrow> Inl UndefinedBehaviour
      | Some s \<Rightarrow>
          if s_size s = 0 then Inr NULL
          else (case arrays m (s_data s) of
            None \<Rightarrow> Inl UndefinedBehaviour
          | Some buf \<Rightarrow>
              if s_size s - 1 < length buf then Inr (buf ! (s_size s - 1))
              else Inl UndefinedBehaviour))"

text \<open>\<^verbatim>\<open>bool is_empty(const Stack *)\<close>, \<^verbatim>\<open>size_t size(const Stack *)\<close>,
  \<^verbatim>\<open>size_t capacity(const Stack *)\<close>\<close>

definition is_empty :: "addr \<Rightarrow> 'w mem \<Rightarrow> error + bool" where
  "is_empty stack m =
     (if stack = NULL then Inr True
      else case structs m stack of
        None \<Rightarrow> Inl UndefinedBehaviour
      | Some s \<Rightarrow> Inr (s_size s = 0))"

definition size_stack :: "addr \<Rightarrow> 'w mem \<Rightarrow> error + nat" where
  "size_stack stack m =
     (if stack = NULL then Inr 0
      else case structs m stack of
        None \<Rightarrow> Inl UndefinedBehaviour
      | Some s \<Rightarrow> Inr (s_size s))"

definition capacity :: "addr \<Rightarrow> 'w mem \<Rightarrow> error + nat" where
  "capacity stack m =
     (if stack = NULL then Inr 0
      else case structs m stack of
        None \<Rightarrow> Inl UndefinedBehaviour
      | Some s \<Rightarrow> Inr (s_capacity s))"

text \<open>
  \<^verbatim>\<open>void clear(Stack *stack)\<close>. The loop
  \<^verbatim>\<open>for (size_t i = 0; i < stack->size; ++i) stack->free_func(stack->data[i]);\<close>
  is \<open>clear_loop\<close>, started at \<open>i = 0\<close>.
\<close>

function clear_loop :: "addr \<Rightarrow> nat \<Rightarrow> 'w mem \<Rightarrow> error + 'w mem" where
  "clear_loop stack i m =
     (case structs m stack of
        None \<Rightarrow> Inl UndefinedBehaviour
      | Some s \<Rightarrow>
          if i < s_size s then
            (case arrays m (s_data s) of
               None \<Rightarrow> Inl UndefinedBehaviour
             | Some buf \<Rightarrow>
                 if i < length buf then
                   clear_loop stack (i + 1)
                     (m\<lparr>world := s_free_func s (buf ! i) (world m)\<rparr>)
                 else Inl UndefinedBehaviour)
          else Inr m)"
  by pat_completeness auto
termination
  by (relation "measure (\<lambda>(stack, i, m).
        case structs m stack of None \<Rightarrow> 0 | Some s \<Rightarrow> s_size s - i)") auto

definition clear :: "addr \<Rightarrow> 'w mem \<Rightarrow> error + 'w mem" where
  "clear stack m =
     (if stack = NULL then Inr m
      else case clear_loop stack 0 m of
        Inl e \<Rightarrow> Inl e
      | Inr m1 \<Rightarrow>
          (case structs m1 stack of
             None \<Rightarrow> Inl UndefinedBehaviour
           | Some s \<Rightarrow> Inr (m1\<lparr>structs := (structs m1)(stack \<mapsto> s\<lparr>s_size := 0\<rparr>)\<rparr>)))"

text \<open>
  \<^verbatim>\<open>bool contains(const Stack *stack, const void *element)\<close>. The comparison function
  is called through the pointer \<^verbatim>\<open>stack->cmp\<close> without a check, in the loop body only.
\<close>

function contains_loop :: "addr \<Rightarrow> addr \<Rightarrow> nat \<Rightarrow> 'w mem \<Rightarrow> error + bool" where
  "contains_loop stack element i m =
     (case structs m stack of
        None \<Rightarrow> Inl UndefinedBehaviour
      | Some s \<Rightarrow>
          if i < s_size s then
            (case arrays m (s_data s) of
               None \<Rightarrow> Inl UndefinedBehaviour
             | Some buf \<Rightarrow>
                 if i < length buf then
                   (case s_cmp s of
                      None \<Rightarrow> Inl UndefinedBehaviour
                    | Some f \<Rightarrow>
                        if f (buf ! i) element (world m) = 0 then Inr True
                        else contains_loop stack element (i + 1) m)
                 else Inl UndefinedBehaviour)
          else Inr False)"
  by pat_completeness auto
termination
  by (relation "measure (\<lambda>(stack, element, i, m).
        case structs m stack of None \<Rightarrow> 0 | Some s \<Rightarrow> s_size s - i)") auto

definition contains :: "addr \<Rightarrow> addr \<Rightarrow> 'w mem \<Rightarrow> error + bool" where
  "contains stack element m =
     (if stack = NULL then Inr False else contains_loop stack element 0 m)"

text \<open>
  \<^verbatim>\<open>void reverse(Stack *stack)\<close>. There is no \<^verbatim>\<open>NULL\<close> check: \<^verbatim>\<open>stack->size\<close> is read
  at once. The \<^verbatim>\<open>while (left < right)\<close> loop is \<open>reverse_loop\<close>.
\<close>

function reverse_loop :: "addr \<Rightarrow> nat \<Rightarrow> nat \<Rightarrow> 'w mem \<Rightarrow> error + 'w mem" where
  "reverse_loop stack left right m =
     (if left < right then
        (case structs m stack of
           None \<Rightarrow> Inl UndefinedBehaviour
         | Some s \<Rightarrow>
             (case arrays m (s_data s) of
                None \<Rightarrow> Inl UndefinedBehaviour
              | Some buf \<Rightarrow>
                  if right < length buf then
                    reverse_loop stack (left + 1) (right - 1)
                      (m\<lparr>arrays := (arrays m)
                           (s_data s \<mapsto> buf[left := buf ! right, right := buf ! left])\<rparr>)
                  else Inl UndefinedBehaviour))
      else Inr m)"
  by pat_completeness auto
termination
  by (relation "measure (\<lambda>(stack, left, right, m). right - left)") auto

definition reverse :: "addr \<Rightarrow> 'w mem \<Rightarrow> error + 'w mem" where
  "reverse stack m =
     (case (if stack = NULL then None else structs m stack) of
        None \<Rightarrow> Inl UndefinedBehaviour
      | Some s \<Rightarrow>
          if s_size s = 0 then Inr m
          else reverse_loop stack 0 (s_size s - 1) m)"

text \<open>
  \<^verbatim>\<open>void **to_array(const Stack *stack, size_t *out_size)\<close>. No \<^verbatim>\<open>NULL\<close> check on
  \<^verbatim>\<open>stack\<close> either. The loop
  \<^verbatim>\<open>for (i = 0; i < stack->size; ++i) array[i] = stack->copy(stack->data[i]);\<close>
  is \<open>to_array_loop\<close>.
\<close>

function to_array_loop :: "addr \<Rightarrow> addr \<Rightarrow> nat \<Rightarrow> 'w mem \<Rightarrow> error + 'w mem" where
  "to_array_loop stack array i m =
     (case structs m stack of
        None \<Rightarrow> Inl UndefinedBehaviour
      | Some s \<Rightarrow>
          if i < s_size s then
            (case arrays m (s_data s) of
               None \<Rightarrow> Inl UndefinedBehaviour
             | Some buf \<Rightarrow>
                 if i < length buf then
                   (case s_copy s (buf ! i) (world m) of
                      (c, w) \<Rightarrow>
                        (case arrays m array of
                           None \<Rightarrow> Inl UndefinedBehaviour
                         | Some arr \<Rightarrow>
                             if i < length arr then
                               to_array_loop stack array (i + 1)
                                 (m\<lparr>world := w,
                                    arrays := (arrays m)(array \<mapsto> arr[i := c])\<rparr>)
                             else Inl UndefinedBehaviour))
                 else Inl UndefinedBehaviour)
          else Inr m)"
  by pat_completeness auto
termination
  by (relation "measure (\<lambda>(stack, array, i, m).
        case structs m stack of None \<Rightarrow> 0 | Some s \<Rightarrow> s_size s - i)") auto

definition set_out_size :: "addr \<Rightarrow> nat \<Rightarrow> 'w mem \<Rightarrow> 'w mem" where
  "set_out_size out_size n m =
     (if out_size \<noteq> NULL then m\<lparr>cells := (cells m)(out_size \<mapsto> n)\<rparr> else m)"

definition to_array :: "addr \<Rightarrow> addr \<Rightarrow> 'w mem \<Rightarrow> error + addr \<times> 'w mem" where
  "to_array stack out_size m =
     (case (if stack = NULL then None else structs m stack) of
        None \<Rightarrow> Inl UndefinedBehaviour
      | Some s \<Rightarrow>
          if s_size s = 0 then Inr (NULL, set_out_size out_size 0 m)
          else (case malloc_array (size_mul (s_size s) PTR_BYTES) m of
            (array, m1) \<Rightarrow>
              if array = NULL then Inl ExitFailure
              else (case to_array_loop stack array 0 m1 of
                Inl e \<Rightarrow> Inl e
              | Inr m2 \<Rightarrow>
                  (case structs m2 stack of
                     None \<Rightarrow> Inl UndefinedBehaviour
                   | Some s2 \<Rightarrow> Inr (array, set_out_size out_size (s_size s2) m2)))))"

text \<open>
  \<^verbatim>\<open>Stack *clone(const Stack *stack)\<close>. The loop
  \<^verbatim>\<open>for (i = 0; i < stack->size; ++i) push(clone, stack->data[i]);\<close> reads
  \<^verbatim>\<open>stack->size\<close> and \<^verbatim>\<open>stack->data\<close> again in every round, after a \<^verbatim>\<open>push\<close> that
  writes through another handle. It is \<open>clone_loop\<close>; that it ends for any two
  handles, equal ones too, needs two facts about \<open>push\<close>.
\<close>

lemma push_structs_other:
  "push c x m = Inr m' \<Longrightarrow> p \<noteq> c \<Longrightarrow> structs m' p = structs m p"
  by (auto simp: push_def grow_def realloc_def malloc_array_def reserve_def Let_def
      split: if_splits option.splits sum.splits prod.splits)

lemma push_size_same:
  "push c x m = Inr m' \<Longrightarrow> structs m c = Some s \<Longrightarrow> c \<noteq> NULL \<Longrightarrow>
   \<exists>s'. structs m' c = Some s' \<and> s_size s' = size_inc (s_size s)"
  by (auto simp: push_def grow_def realloc_def malloc_array_def reserve_def Let_def
      split: if_splits option.splits sum.splits prod.splits)

lemma push_NULL: "push NULL x m = Inr m"
  by (simp add: push_def)

lemma size_inc_less: "size_inc a < SIZE_MOD"
  by (simp add: size_inc_def SIZE_MOD_def)

function clone_loop :: "addr \<Rightarrow> addr \<Rightarrow> nat \<Rightarrow> 'w mem \<Rightarrow> error + 'w mem" where
  "clone_loop stack clone i m =
     (case structs m stack of
        None \<Rightarrow> Inl UndefinedBehaviour
      | Some s \<Rightarrow>
          if i < s_size s then
            (case arrays m (s_data s) of
               None \<Rightarrow> Inl UndefinedBehaviour
             | Some buf \<Rightarrow>
                 if i < length buf then
                   (case push clone (buf ! i) m of
                      Inl e \<Rightarrow> Inl e
                    | Inr m' \<Rightarrow> clone_loop stack clone (i + 1) m')
                 else Inl UndefinedBehaviour)
          else Inr m)"
  by pat_completeness auto
termination
proof (relation "measure (\<lambda>(stack, clone, i, m).
        case structs m stack of
          None \<Rightarrow> 0
        | Some s \<Rightarrow>
            if clone = stack \<and> stack \<noteq> NULL
            then (if SIZE_MOD \<le> s_size s then SIZE_MOD + 1 else 0) + (SIZE_MOD - i)
            else s_size s - i)", goal_cases)
  case 1
  show ?case by simp
next
  case (2 stack clone i m s buf m')
  show ?case
  proof (cases "clone = stack \<and> stack \<noteq> NULL")
    case True
    with 2 obtain s' where s': "structs m' stack = Some s'" "s_size s' = size_inc (s_size s)"
      using push_size_same[of clone "buf ! i" m m' s] by auto
    have "s_size s' < SIZE_MOD" using s' size_inc_less by simp
    with 2 True s' show ?thesis by auto
  next
    case False
    have "structs m' stack = structs m stack"
    proof (cases "clone = stack")
      case True
      with False have "clone = NULL" by simp
      with 2 show ?thesis by (simp add: push_NULL)
    next
      case False
      with 2 show ?thesis using push_structs_other[of clone "buf ! i" m m' stack] by simp
    qed
    with 2 False show ?thesis by auto
  qed
qed

definition clone :: "addr \<Rightarrow> 'w mem \<Rightarrow> error + addr \<times> 'w mem" where
  "clone stack m =
     (if stack = NULL then Inr (NULL, m)
      else case structs m stack of
        None \<Rightarrow> Inl UndefinedBehaviour
      | Some s \<Rightarrow>
          (case new_stack (s_copy s) (s_free_func s) (s_cmp s) m of
             Inl e \<Rightarrow> Inl e
           | Inr (c, m1) \<Rightarrow>
               (case clone_loop stack c 0 m1 of
                  Inl e \<Rightarrow> Inl e
                | Inr m2 \<Rightarrow> Inr (c, m2))))"

declare clear_loop.simps [simp del] contains_loop.simps [simp del]
  reverse_loop.simps [simp del] to_array_loop.simps [simp del] clone_loop.simps [simp del]

section \<open>Well-formed stacks and what they hold\<close>

text \<open>
  A handle \<open>p\<close> is a stack in memory \<open>m\<close> when it points to a \<^verbatim>\<open>struct Stack\<close> whose
  \<^verbatim>\<open>data\<close> is an allocated array of exactly \<^verbatim>\<open>capacity\<close> slots, with
  \<^verbatim>\<open>size \<le> capacity\<close>; both were handed out by the allocator (they are not above
  \<open>brk\<close>) and the array, as any block that \<^verbatim>\<open>malloc\<close> returned, has at most \<^verbatim>\<open>PTRDIFF_MAX\<close> bytes.
\<close>

definition stack_ok :: "'w mem \<Rightarrow> addr \<Rightarrow> bool" where
  "stack_ok m p \<longleftrightarrow>
     p \<noteq> NULL \<and> p \<le> brk m \<and>
     (case structs m p of
        None \<Rightarrow> False
      | Some s \<Rightarrow>
          (case arrays m (s_data s) of
             None \<Rightarrow> False
           | Some buf \<Rightarrow>
               length buf = s_capacity s \<and> s_size s \<le> s_capacity s \<and>
               s_capacity s * PTR_BYTES \<le> PTRDIFF_MAX \<and>
               s_data s \<noteq> NULL \<and> s_data s \<le> brk m))"

text \<open>The buffer of a stack, its size and capacity fields, and its live elements
  (slots \<open>0\<close> to \<open>size - 1\<close>, bottom to top).\<close>

definition buffer :: "'w mem \<Rightarrow> addr \<Rightarrow> addr list" where
  "buffer m p =
     (case structs m p of
        None \<Rightarrow> []
      | Some s \<Rightarrow> (case arrays m (s_data s) of None \<Rightarrow> [] | Some buf \<Rightarrow> buf))"

definition size_of :: "'w mem \<Rightarrow> addr \<Rightarrow> nat" where
  "size_of m p = (case structs m p of None \<Rightarrow> 0 | Some s \<Rightarrow> s_size s)"

definition capacity_of :: "'w mem \<Rightarrow> addr \<Rightarrow> nat" where
  "capacity_of m p = (case structs m p of None \<Rightarrow> 0 | Some s \<Rightarrow> s_capacity s)"

definition elements :: "'w mem \<Rightarrow> addr \<Rightarrow> addr list" where
  "elements m p = take (size_of m p) (buffer m p)"

text \<open>
  Running a copy function over a list of element pointers, first to last: the pointers
  it returns and the world it leaves.
\<close>

fun copy_all :: "(addr \<Rightarrow> 'w \<Rightarrow> addr \<times> 'w) \<Rightarrow> addr list \<Rightarrow> 'w \<Rightarrow> addr list \<times> 'w" where
  "copy_all f [] w = ([], w)"
| "copy_all f (e # es) w =
     (case f e w of (c, w1) \<Rightarrow> (case copy_all f es w1 of (cs, w2) \<Rightarrow> (c # cs, w2)))"

text \<open>The operation functions a stack was constructed with.\<close>

definition ops_of ::
  "'w mem \<Rightarrow> addr \<Rightarrow>
   ((addr \<Rightarrow> 'w \<Rightarrow> addr \<times> 'w) \<times> (addr \<Rightarrow> 'w \<Rightarrow> 'w) \<times> (addr \<Rightarrow> addr \<Rightarrow> 'w \<Rightarrow> int) option) option" where
  "ops_of m p =
     (case structs m p of None \<Rightarrow> None | Some s \<Rightarrow> Some (s_copy s, s_free_func s, s_cmp s))"

text \<open>The capacity after \<^verbatim>\<open>grow\<close> when nothing wraps: doubled, and 8 from 0.\<close>

definition grown :: "nat \<Rightarrow> nat" where
  "grown c = (if c = 0 then 8 else 2 * c)"

text \<open>
  What the allocator decides when \<^verbatim>\<open>grow\<close> calls \<^verbatim>\<open>realloc\<close> on the buffer of the
  \<^verbatim>\<open>struct Stack\<close> \<open>s\<close>: whether the buffer stays where it is, the address of the
  buffer afterwards, and whether the request can be served at all.
\<close>

definition stays :: "'w mem \<Rightarrow> 'w Stack \<Rightarrow> bool" where
  "stays m s \<longleftrightarrow> in_place m (s_data s) (grown (s_capacity s) * PTR_BYTES)"

definition grow_data :: "'w mem \<Rightarrow> 'w Stack \<Rightarrow> addr" where
  "grow_data m s = (if stays m s then s_data s else Suc (brk m))"

definition grow_fits :: "'w mem \<Rightarrow> 'w Stack \<Rightarrow> bool" where
  "grow_fits m s \<longleftrightarrow>
     grown (s_capacity s) * PTR_BYTES \<le> PTRDIFF_MAX \<and>
     grown (s_capacity s) * PTR_BYTES \<le>
       avail m + (if stays m s then PTR_BYTES * s_capacity s else 0)"

text \<open>Calling \<^verbatim>\<open>push\<close> for each element of a list in turn, and calling \<^verbatim>\<open>pop\<close>
  \<open>n\<close> times, collecting what it returns (first popped first).\<close>

fun push_all :: "addr \<Rightarrow> addr list \<Rightarrow> 'w mem \<Rightarrow> error + 'w mem" where
  "push_all stack [] m = Inr m"
| "push_all stack (e # es) m =
     (case push stack e m of Inl err \<Rightarrow> Inl err | Inr m1 \<Rightarrow> push_all stack es m1)"

fun pop_n :: "nat \<Rightarrow> addr \<Rightarrow> 'w mem \<Rightarrow> error + addr list \<times> 'w mem" where
  "pop_n 0 stack m = Inr ([], m)"
| "pop_n (Suc n) stack m =
     (case pop stack m of
        Inl err \<Rightarrow> Inl err
      | Inr (x, m1) \<Rightarrow>
          (case pop_n n stack m1 of
             Inl err \<Rightarrow> Inl err
           | Inr (xs, m2) \<Rightarrow> Inr (x # xs, m2)))"

text \<open>The \<^verbatim>\<open>data\<close> pointer of a stack, and two stacks that share neither struct nor
  buffer.\<close>

definition data_of :: "'w mem \<Rightarrow> addr \<Rightarrow> addr" where
  "data_of m p = (case structs m p of None \<Rightarrow> NULL | Some s \<Rightarrow> s_data s)"

definition separate :: "'w mem \<Rightarrow> addr \<Rightarrow> addr \<Rightarrow> bool" where
  "separate m p c \<longleftrightarrow> stack_ok m p \<and> stack_ok m c \<and> p \<noteq> c \<and> data_of m p \<noteq> data_of m c"

text \<open>
  A \<^verbatim>\<open>struct Stack\<close> that has no buffer yet: \<^verbatim>\<open>data\<close> is \<^verbatim>\<open>NULL\<close>, \<^verbatim>\<open>size\<close> and \<^verbatim>\<open>capacity\<close>
  are 0. \<^verbatim>\<open>new_stack\<close> never leaves one; it is the state that the branch
  \<^verbatim>\<open>stack->capacity ? stack->capacity * 2 : STACK_INITIAL_CAPACITY\<close> of \<^verbatim>\<open>grow\<close> provides
  for.
\<close>

definition stack_unallocated :: "'w mem \<Rightarrow> addr \<Rightarrow> bool" where
  "stack_unallocated m p \<longleftrightarrow>
     p \<noteq> NULL \<and> p \<le> brk m \<and>
     (case structs m p of
        None \<Rightarrow> False
      | Some s \<Rightarrow> s_data s = NULL \<and> s_size s = 0 \<and> s_capacity s = 0)"

text \<open>A sequence of \<^verbatim>\<open>push\<close> and \<^verbatim>\<open>pop\<close> calls through one handle.\<close>

datatype mutation = Push addr | Pop

fun mutate :: "addr \<Rightarrow> mutation list \<Rightarrow> 'w mem \<Rightarrow> error + 'w mem" where
  "mutate stack [] m = Inr m"
| "mutate stack (Push e # ms) m =
     (case push stack e m of Inl err \<Rightarrow> Inl err | Inr m1 \<Rightarrow> mutate stack ms m1)"
| "mutate stack (Pop # ms) m =
     (case pop stack m of Inl err \<Rightarrow> Inl err | Inr (y, m1) \<Rightarrow> mutate stack ms m1)"

text \<open>
  The contract of the caller's copy function (\<^verbatim>\<open>stack.h\<close>: "Pointer to a newly
  allocated copy of the element"), for a client whose world has a set \<open>live w\<close> of
  allocated elements with values \<open>val w e\<close>: the copy is an element that was not live
  before, it becomes live, it has the value of the original, and no live element
  changes its value.
\<close>

definition copy_contract ::
  "('w \<Rightarrow> addr set) \<Rightarrow> ('w \<Rightarrow> addr \<Rightarrow> 'v) \<Rightarrow> (addr \<Rightarrow> 'w \<Rightarrow> addr \<times> 'w) \<Rightarrow> bool" where
  "copy_contract live val cf \<longleftrightarrow>
     (\<forall>e w. e \<in> live w \<longrightarrow>
        fst (cf e w) \<notin> live w \<and>
        live (snd (cf e w)) = insert (fst (cf e w)) (live w) \<and>
        val (snd (cf e w)) (fst (cf e w)) = val w e \<and>
        (\<forall>r\<in>live w. val (snd (cf e w)) r = val w r))"

text \<open>
  Two invariants of the buffer. The first is the one the specification states: the
  slots below \<^verbatim>\<open>size\<close> are not \<^verbatim>\<open>NULL\<close> and the slots from \<^verbatim>\<open>size\<close> on are \<^verbatim>\<open>NULL\<close>. The
  second says nothing about the slots from \<^verbatim>\<open>size\<close> on.
\<close>

definition claimed_buffer_inv :: "'w mem \<Rightarrow> addr \<Rightarrow> bool" where
  "claimed_buffer_inv m p \<longleftrightarrow>
     stack_ok m p \<and> list_all (\<lambda>e. e \<noteq> NULL) (elements m p) \<and>
     list_all (\<lambda>e. e = NULL) (drop (size_of m p) (buffer m p))"

definition live_inv :: "'w mem \<Rightarrow> addr \<Rightarrow> bool" where
  "live_inv m p \<longleftrightarrow> stack_ok m p \<and> list_all (\<lambda>e. e \<noteq> NULL) (elements m p)"

text \<open>
  What the two-pointer loop of \<^verbatim>\<open>reverse\<close> computes on a buffer: the slots from \<open>l\<close>
  to \<open>r\<close> in reverse order, every other slot as it was.
\<close>

definition swap_range :: "'a list \<Rightarrow> nat \<Rightarrow> nat \<Rightarrow> 'a list" where
  "swap_range xs l r =
     map (\<lambda>i. if l \<le> i \<and> i \<le> r then xs ! (l + r - i) else xs ! i) [0..<length xs]"

section \<open>An example client\<close>

text \<open>
  A client whose elements are integers. Its world is a list of cells; the element
  pointer \<open>k\<close> points to cell \<open>k - 1\<close>, a freed cell holds \<open>None\<close>. Copying an element
  allocates a new cell at the end. \<open>mem0\<close> is a memory with three elements and no
  stack yet, in which fresh storage happens to be zeroed and \<^verbatim>\<open>realloc\<close> moves every
  block it resizes.
\<close>

type_synonym ints = "int option list"

definition int_at :: "ints \<Rightarrow> addr \<Rightarrow> int option" where
  "int_at w p = (if 0 < p \<and> p \<le> length w then w ! (p - 1) else None)"

definition int_copy :: "addr \<Rightarrow> ints \<Rightarrow> addr \<times> ints" where
  "int_copy p w = (Suc (length w), w @ [int_at w p])"

definition int_free :: "addr \<Rightarrow> ints \<Rightarrow> ints" where
  "int_free p w = (if 0 < p \<and> p \<le> length w then w[p - 1 := None] else w)"

definition int_cmp :: "addr \<Rightarrow> addr \<Rightarrow> ints \<Rightarrow> int" where
  "int_cmp a b w =
     (case (int_at w a, int_at w b) of
        (Some x, Some y) \<Rightarrow> (if x < y then - 1 else if x = y then 0 else 1)
      | _ \<Rightarrow> 1)"

definition mem0 :: "ints mem" where
  "mem0 = \<lparr>structs = Map.empty, arrays = Map.empty, cells = Map.empty,
           world = [Some 10, Some 20, Some 30], brk = 0, avail = 4096, junk = (\<lambda>a i. 0),
           in_place = (\<lambda>a n. False)\<rparr>"

definition int_live :: "ints \<Rightarrow> addr set" where
  "int_live w = {p. 0 < p \<and> p \<le> length w}"

text \<open>
  \<open>mem1\<close> is \<open>mem0\<close> after \<^verbatim>\<open>new_stack\<close> (the stack is at address 1, its buffer at
  address 2), \<open>mem2\<close> is \<open>mem1\<close> after pushing the elements 1, 2 and 3, whose copies
  are the elements 4, 5 and 6.
\<close>

definition ex_stack :: "ints Stack" where
  "ex_stack = \<lparr>s_data = 2, s_size = 0, s_capacity = 8, s_copy = int_copy,
               s_free_func = int_free, s_cmp = Some int_cmp\<rparr>"

definition mem1 :: "ints mem" where
  "mem1 = \<lparr>structs = [1 \<mapsto> ex_stack], arrays = [2 \<mapsto> [0, 0, 0, 0, 0, 0, 0, 0]],
           cells = Map.empty, world = [Some 10, Some 20, Some 30], brk = 2, avail = 3984,
           junk = (\<lambda>a i. 0),
           in_place = (\<lambda>a n. False)\<rparr>"

definition mem2 :: "ints mem" where
  "mem2 = \<lparr>structs = [1 \<mapsto> ex_stack\<lparr>s_size := 3\<rparr>],
           arrays = [2 \<mapsto> [4, 5, 6, 0, 0, 0, 0, 0]],
           cells = Map.empty,
           world = [Some 10, Some 20, Some 30, Some 10, Some 20, Some 30], brk = 2,
           avail = 3984, junk = (\<lambda>a i. 0),
           in_place = (\<lambda>a n. False)\<rparr>"

text \<open>\<open>mem3\<close> is \<open>mem2\<close> after \<^verbatim>\<open>clone\<close>: the clone is at address 3, its buffer at
  address 4, its elements are 7, 8 and 9.\<close>

definition mem3 :: "ints mem" where
  "mem3 = \<lparr>structs = [1 \<mapsto> ex_stack\<lparr>s_size := 3\<rparr>, 3 \<mapsto> ex_stack\<lparr>s_data := 4, s_size := 3\<rparr>],
           arrays = [2 \<mapsto> [4, 5, 6, 0, 0, 0, 0, 0], 4 \<mapsto> [7, 8, 9, 0, 0, 0, 0, 0]],
           cells = Map.empty,
           world = [Some 10, Some 20, Some 30, Some 10, Some 20, Some 30,
                    Some 10, Some 20, Some 30],
           brk = 4, avail = 3872, junk = (\<lambda>a i. 0),
           in_place = (\<lambda>a n. False)\<rparr>"

text \<open>\<open>memz\<close> is \<open>mem1\<close> with a stack of capacity 0 in place of the new one.\<close>

definition memz :: "ints mem" where
  "memz = mem1\<lparr>structs := [1 \<mapsto> ex_stack\<lparr>s_capacity := 0\<rparr>], arrays := [2 \<mapsto> []]\<rparr>"

text \<open>
  \<open>mem8\<close> is \<open>mem1\<close> after pushing eight elements: the stack is full. \<open>mem9\<close> is
  \<open>mem8\<close> after one more \<^verbatim>\<open>push\<close>, for which \<^verbatim>\<open>realloc\<close> has moved the buffer to address
  3; \<open>mem9s\<close> is what the same \<^verbatim>\<open>push\<close> leaves when the allocator resizes every block
  where it is. \<open>mem10\<close> is \<open>mem9\<close> after \<^verbatim>\<open>clone\<close>: the clone is at address 4; its
  first buffer, at address 5, was full after eight elements and \<^verbatim>\<open>realloc\<close> has
  moved it to address 6. \<open>memu\<close> is \<open>mem1\<close> with a \<^verbatim>\<open>struct Stack\<close> that has no buffer.
  \<open>nine\<close> is the list of the nine elements pushed, \<open>always\<close> the choice of an allocator
  that moves no block.
\<close>

definition nine :: "addr list" where
  "nine = [1, 2, 3, 1, 2, 3, 1, 2, 3]"

definition mem8 :: "ints mem" where
  "mem8 = \<lparr>structs = [1 \<mapsto> ex_stack\<lparr>s_size := 8\<rparr>],
           arrays = [2 \<mapsto> [4, 5, 6, 7, 8, 9, 10, 11]],
           cells = Map.empty,
           world = [Some 10, Some 20, Some 30, Some 10, Some 20, Some 30,
                    Some 10, Some 20, Some 30, Some 10, Some 20],
           brk = 2, avail = 3984, junk = (\<lambda>a i. 0), in_place = (\<lambda>a n. False)\<rparr>"

definition always :: "addr \<Rightarrow> nat \<Rightarrow> bool" where
  "always a n = True"

definition mem9 :: "ints mem" where
  "mem9 = \<lparr>structs = [1 \<mapsto> ex_stack\<lparr>s_data := 3, s_size := 9, s_capacity := 16\<rparr>],
           arrays = [3 \<mapsto> [4, 5, 6, 7, 8, 9, 10, 11, 12, 0, 0, 0, 0, 0, 0, 0]],
           cells = Map.empty,
           world = [Some 10, Some 20, Some 30, Some 10, Some 20, Some 30,
                    Some 10, Some 20, Some 30, Some 10, Some 20, Some 30],
           brk = 3, avail = 3920, junk = (\<lambda>a i. 0), in_place = (\<lambda>a n. False)\<rparr>"

definition mem9s :: "ints mem" where
  "mem9s = \<lparr>structs = [1 \<mapsto> ex_stack\<lparr>s_size := 9, s_capacity := 16\<rparr>],
            arrays = [2 \<mapsto> [4, 5, 6, 7, 8, 9, 10, 11, 12, 0, 0, 0, 0, 0, 0, 0]],
            cells = Map.empty,
            world = [Some 10, Some 20, Some 30, Some 10, Some 20, Some 30,
                     Some 10, Some 20, Some 30, Some 10, Some 20, Some 30],
            brk = 2, avail = 3920, junk = (\<lambda>a i. 0), in_place = always\<rparr>"

definition mem10 :: "ints mem" where
  "mem10 = \<lparr>structs = [1 \<mapsto> ex_stack\<lparr>s_data := 3, s_size := 9, s_capacity := 16\<rparr>,
                       4 \<mapsto> ex_stack\<lparr>s_data := 6, s_size := 9, s_capacity := 16\<rparr>],
            arrays = [3 \<mapsto> [4, 5, 6, 7, 8, 9, 10, 11, 12, 0, 0, 0, 0, 0, 0, 0],
                      6 \<mapsto> [13, 14, 15, 16, 17, 18, 19, 20, 21, 0, 0, 0, 0, 0, 0, 0]],
            cells = Map.empty,
            world = [Some 10, Some 20, Some 30, Some 10, Some 20, Some 30,
                     Some 10, Some 20, Some 30, Some 10, Some 20, Some 30,
                     Some 10, Some 20, Some 30, Some 10, Some 20, Some 30,
                     Some 10, Some 20, Some 30],
            brk = 6, avail = 3744, junk = (\<lambda>a i. 0), in_place = (\<lambda>a n. False)\<rparr>"

definition memu :: "ints mem" where
  "memu = mem1\<lparr>structs := [1 \<mapsto> ex_stack\<lparr>s_data := NULL, s_capacity := 0\<rparr>],
               arrays := Map.empty\<rparr>"

text \<open>Fresh storage that is not zeroed.\<close>

definition dirty :: "addr \<Rightarrow> nat \<Rightarrow> addr" where
  "dirty a i = 7"

text \<open>
  A second client, whose world is the list of the pointers its release function was
  called with, in the order of the calls. \<open>mem_log\<close> holds a stack of this client with
  the elements 4, 5 and 6.
\<close>

definition log_copy :: "addr \<Rightarrow> addr list \<Rightarrow> addr \<times> addr list" where
  "log_copy e w = (e + 3, w)"

definition log_free :: "addr \<Rightarrow> addr list \<Rightarrow> addr list" where
  "log_free e w = w @ [e]"

definition log_stack :: "addr list Stack" where
  "log_stack = \<lparr>s_data = 2, s_size = 3, s_capacity = 8, s_copy = log_copy,
                s_free_func = log_free, s_cmp = None\<rparr>"

definition mem_log :: "addr list mem" where
  "mem_log = \<lparr>structs = [1 \<mapsto> log_stack], arrays = [2 \<mapsto> [4, 5, 6, 0, 0, 0, 0, 0]],
              cells = Map.empty, world = [], brk = 2, avail = 3984, junk = (\<lambda>a i. 0),
              in_place = (\<lambda>a n. False)\<rparr>"

section \<open>Arithmetic, lists and the allocator\<close>

lemmas c_consts = SIZE_MOD_def PTRDIFF_MAX_def PTR_BYTES_def STACK_BYTES_def
  STACK_INITIAL_CAPACITY_def

lemmas abs_defs = elements_def buffer_def size_of_def capacity_of_def ops_of_def

lemma size_inc_small: "a * PTR_BYTES < PTRDIFF_MAX \<Longrightarrow> size_inc a = Suc a"
  by (simp add: size_inc_def c_consts)

lemma take_Suc_update: "i < length xs \<Longrightarrow> take (Suc i) (xs[i := c]) = take i xs @ [c]"
  by (simp add: take_Suc_conv_app_nth)

lemma last_take: "0 < n \<Longrightarrow> n \<le> length xs \<Longrightarrow> last (take n xs) = xs ! (n - 1)"
  by (cases n) (simp_all add: take_Suc_conv_app_nth)

lemma copy_all_Cons:
  "copy_all f (e # es) w =
     (fst (f e w) # fst (copy_all f es (snd (f e w))), snd (copy_all f es (snd (f e w))))"
  by (simp split: prod.splits)

lemma copy_all_append:
  "copy_all f (xs @ ys) w =
     (fst (copy_all f xs w) @ fst (copy_all f ys (snd (copy_all f xs w))),
      snd (copy_all f ys (snd (copy_all f xs w))))"
  by (induction xs arbitrary: w) (simp_all add: copy_all_Cons del: copy_all.simps(2))

lemma length_copy_all: "length (fst (copy_all f xs w)) = length xs"
  by (induction xs arbitrary: w) (simp_all add: copy_all_Cons del: copy_all.simps(2))

lemma stack_okE:
  assumes "stack_ok m p"
  obtains s buf where "structs m p = Some s" "arrays m (s_data s) = Some buf"
    "length buf = s_capacity s" "s_size s \<le> s_capacity s"
    "s_capacity s * PTR_BYTES \<le> PTRDIFF_MAX" "s_data s \<le> brk m" "s_data s \<noteq> NULL" "p \<noteq> NULL"
    "p \<le> brk m"
  using assms by (auto simp: stack_ok_def split: option.splits)

lemma observers_abs:
  assumes "stack_ok m p"
  shows "size_stack p m = Inr (size_of m p)" and "is_empty p m = Inr (size_of m p = 0)"
    and "capacity p m = Inr (capacity_of m p)" and "length (elements m p) = size_of m p"
    and "length (buffer m p) = capacity_of m p" and "size_of m p \<le> capacity_of m p"
  using assms
  by (auto elim!: stack_okE simp: abs_defs size_stack_def is_empty_def capacity_def)

section \<open>What each operation does to a well-formed stack\<close>

subsection \<open>\<^verbatim>\<open>new_stack\<close>\<close>

lemma new_stack_spec:
  assumes "new_stack cf ff cmpf m = Inr (p, m')"
  shows "p = Suc (brk m)"
    and "m' = m\<lparr>brk := Suc (Suc (brk m)),
                avail := avail m - STACK_BYTES - STACK_INITIAL_CAPACITY * PTR_BYTES,
                arrays := (arrays m)(Suc (Suc (brk m)) \<mapsto>
                   map (junk m (Suc (Suc (brk m)))) [0..<STACK_INITIAL_CAPACITY]),
                structs := (structs m)(Suc (brk m) \<mapsto>
                   \<lparr>s_data = Suc (Suc (brk m)), s_size = 0,
                    s_capacity = STACK_INITIAL_CAPACITY,
                    s_copy = cf, s_free_func = ff, s_cmp = cmpf\<rparr>)\<rparr>"
  using assms
  by (auto simp: new_stack_def malloc_array_def reserve_def size_mul_def c_consts NULL_def
      split: if_splits)

lemma new_stack_abs:
  assumes "new_stack cf ff cmpf m = Inr (p, m')"
  shows "stack_ok m' p" and "elements m' p = []" and "size_of m' p = 0"
    and "capacity_of m' p = STACK_INITIAL_CAPACITY" and "ops_of m' p = Some (cf, ff, cmpf)"
    and "world m' = world m"
  unfolding new_stack_spec[OF assms]
  by (simp_all add: stack_ok_def abs_defs c_consts NULL_def)

lemma new_stack_succeeds:
  assumes "STACK_BYTES + STACK_INITIAL_CAPACITY * PTR_BYTES \<le> avail m"
  shows "\<exists>p m'. new_stack cf ff cmpf m = Inr (p, m')"
  using assms
  by (simp add: new_stack_def malloc_array_def reserve_def size_mul_def c_consts NULL_def)

subsection \<open>\<^verbatim>\<open>grow\<close> and \<^verbatim>\<open>push\<close>\<close>

lemma grow_spec:
  assumes "structs m p = Some s" and "arrays m (s_data s) = Some buf"
    and "length buf = s_capacity s" and "s_capacity s * PTR_BYTES \<le> PTRDIFF_MAX"
    and "s_data s \<noteq> NULL"
    and "grow p m = Inr m'"
  shows "m' = m\<lparr>brk := (if stays m s then brk m else Suc (brk m)),
                avail := avail m + PTR_BYTES * s_capacity s - grown (s_capacity s) * PTR_BYTES,
                arrays := (arrays m)(s_data s := None,
                   grow_data m s \<mapsto> buf @ map (junk m (grow_data m s))
                                         [s_capacity s..<grown (s_capacity s)]),
                structs := (structs m)(p \<mapsto> s\<lparr>s_data := grow_data m s,
                                               s_capacity := grown (s_capacity s)\<rparr>)\<rparr>"
    and "grow_fits m s"
proof -
  have sm1: "size_mul (s_capacity s) 2 = 2 * s_capacity s"
    using assms(4) by (simp add: size_mul_def c_consts)
  have sm2: "size_mul (2 * s_capacity s) 8 = 16 * s_capacity s"
    using assms(4) by (simp add: size_mul_def c_consts)
  have sm3: "size_mul 8 8 = 64"
    by (simp add: size_mul_def c_consts)
  have d: "16 * s_capacity s div 8 = 2 * s_capacity s" by simp
  show "m' = m\<lparr>brk := (if stays m s then brk m else Suc (brk m)),
                avail := avail m + PTR_BYTES * s_capacity s - grown (s_capacity s) * PTR_BYTES,
                arrays := (arrays m)(s_data s := None,
                   grow_data m s \<mapsto> buf @ map (junk m (grow_data m s))
                                         [s_capacity s..<grown (s_capacity s)]),
                structs := (structs m)(p \<mapsto> s\<lparr>s_data := grow_data m s,
                                               s_capacity := grown (s_capacity s)\<rparr>)\<rparr>"
    using assms(1,2,3,5,6)
    by (cases "s_capacity s = 0"; cases "stays m s")
       (auto simp: grow_def realloc_def reserve_def grown_def Let_def sm1 sm2 sm3 d
          stays_def grow_data_def PTR_BYTES_def NULL_def STACK_INITIAL_CAPACITY_def
          split: if_splits)
  show "grow_fits m s"
    using assms(1,2,3,5,6)
    by (cases "s_capacity s = 0"; cases "stays m s")
       (auto simp: grow_def realloc_def reserve_def grown_def Let_def sm1 sm2 sm3 d
          stays_def grow_fits_def PTR_BYTES_def NULL_def STACK_INITIAL_CAPACITY_def
          split: if_splits)
qed

lemma grow_result:
  assumes "structs m p = Some s" and "arrays m (s_data s) = Some buf"
    and "length buf = s_capacity s" and "s_capacity s * PTR_BYTES \<le> PTRDIFF_MAX"
    and "s_data s \<noteq> NULL"
  shows "if grow_fits m s then \<exists>m'. grow p m = Inr m' else grow p m = Inl ExitFailure"
proof -
  have sm1: "size_mul (s_capacity s) 2 = 2 * s_capacity s"
    using assms(4) by (simp add: size_mul_def c_consts)
  have sm2: "size_mul (2 * s_capacity s) 8 = 16 * s_capacity s"
    using assms(4) by (simp add: size_mul_def c_consts)
  have sm3: "size_mul 8 8 = 64"
    by (simp add: size_mul_def c_consts)
  show ?thesis
    using assms(1,2,3,5)
    by (cases "s_capacity s = 0"; cases "stays m s")
       (auto simp: grow_def realloc_def reserve_def grown_def Let_def sm1 sm2 sm3
          stays_def grow_fits_def PTR_BYTES_def NULL_def STACK_INITIAL_CAPACITY_def)
qed

lemma grow_succeeds:
  assumes "structs m p = Some s" and "arrays m (s_data s) = Some buf"
    and "length buf = s_capacity s" and "s_capacity s * PTR_BYTES \<le> PTRDIFF_MAX"
    and "s_data s \<noteq> NULL"
    and "grow_fits m s"
  shows "\<exists>m'. grow p m = Inr m'"
  using grow_result[OF assms(1-5)] assms(6) by simp

lemma push_room:
  assumes "structs m p = Some s" and "arrays m (s_data s) = Some buf"
    and "length buf = s_capacity s" and "s_size s < s_capacity s"
    and "s_capacity s * PTR_BYTES \<le> PTRDIFF_MAX" and "p \<noteq> NULL"
  shows "push p x m =
     Inr (m\<lparr>world := snd (s_copy s x (world m)),
            arrays := (arrays m)(s_data s \<mapsto> buf[s_size s := fst (s_copy s x (world m))]),
            structs := (structs m)(p \<mapsto> s\<lparr>s_size := Suc (s_size s)\<rparr>)\<rparr>)"
proof -
  have "s_size s * PTR_BYTES < PTRDIFF_MAX" using assms(4,5) by (simp add: c_consts)
  then have "size_inc (s_size s) = Suc (s_size s)" by (rule size_inc_small)
  with assms show ?thesis by (simp add: push_def split: prod.splits)
qed

lemma push_full:
  assumes "structs m p = Some s" and "arrays m (s_data s) = Some buf"
    and "length buf = s_capacity s" and "s_size s = s_capacity s"
    and "s_capacity s * PTR_BYTES \<le> PTRDIFF_MAX" and "p \<noteq> NULL" and "s_data s \<noteq> NULL"
    and "push p x m = Inr m'"
  shows "m' = m\<lparr>brk := (if stays m s then brk m else Suc (brk m)),
                avail := avail m + PTR_BYTES * s_capacity s - grown (s_capacity s) * PTR_BYTES,
                world := snd (s_copy s x (world m)),
                arrays := (arrays m)(s_data s := None,
                   grow_data m s \<mapsto> (buf @ map (junk m (grow_data m s))
                                         [s_capacity s..<grown (s_capacity s)])
                                  [s_size s := fst (s_copy s x (world m))]),
                structs := (structs m)(p \<mapsto> s\<lparr>s_data := grow_data m s,
                                               s_capacity := grown (s_capacity s),
                                               s_size := Suc (s_size s)\<rparr>)\<rparr>"
    and "grow_fits m s"
proof -
  from assms obtain m1 where g: "grow p m = Inr m1"
    by (auto simp: push_def split: sum.splits)
  note gs = grow_spec[OF assms(1,2,3,5,7) g]
  show "grow_fits m s" by (rule gs(2))
  then have b: "grown (s_capacity s) * PTR_BYTES \<le> PTRDIFF_MAX" by (simp add: grow_fits_def)
  have lt: "s_capacity s < grown (s_capacity s)" by (simp add: grown_def)
  with b have "s_size s * PTR_BYTES < PTRDIFF_MAX" using assms(4) by (simp add: c_consts)
  then have inc: "size_inc (s_size s) = Suc (s_size s)" by (rule size_inc_small)
  have p: "push p x m =
     (case structs m1 p of
        None \<Rightarrow> Inl UndefinedBehaviour
      | Some s \<Rightarrow>
          (case arrays m1 (s_data s) of
             None \<Rightarrow> Inl UndefinedBehaviour
           | Some buf \<Rightarrow>
               if s_size s < length buf then
                 (case s_copy s x (world m1) of
                    (c, w) \<Rightarrow>
                      Inr (m1\<lparr>world := w,
                              arrays := (arrays m1)(s_data s \<mapsto> buf[s_size s := c]),
                              structs := (structs m1)
                                (p \<mapsto> s\<lparr>s_size := size_inc (s_size s)\<rparr>)\<rparr>))
               else Inl UndefinedBehaviour))"
    using assms(1,4,6) g by (simp add: push_def)
  show "m' = m\<lparr>brk := (if stays m s then brk m else Suc (brk m)),
                avail := avail m + PTR_BYTES * s_capacity s - grown (s_capacity s) * PTR_BYTES,
                world := snd (s_copy s x (world m)),
                arrays := (arrays m)(s_data s := None,
                   grow_data m s \<mapsto> (buf @ map (junk m (grow_data m s))
                                         [s_capacity s..<grown (s_capacity s)])
                                  [s_size s := fst (s_copy s x (world m))]),
                structs := (structs m)(p \<mapsto> s\<lparr>s_data := grow_data m s,
                                               s_capacity := grown (s_capacity s),
                                               s_size := Suc (s_size s)\<rparr>)\<rparr>"
    using assms(8) assms(3,4) lt inc unfolding p gs(1)
    by (cases "stays m s") (simp_all split: prod.splits)
qed

text \<open>
  \<^verbatim>\<open>push\<close> on a well-formed stack has two outcomes only: it returns, or \<^verbatim>\<open>grow\<close> ends
  the program because the allocator cannot serve the request. It never runs into
  undefined behaviour.
\<close>

lemma push_result:
  assumes ok: "stack_ok m p" and st: "structs m p = Some s"
  shows "if s_size s < s_capacity s \<or> grow_fits m s then \<exists>m'. push p x m = Inr m'
         else push p x m = Inl ExitFailure"
proof -
  from ok st obtain buf where b: "arrays m (s_data s) = Some buf"
    "length buf = s_capacity s" "s_size s \<le> s_capacity s"
    "s_capacity s * PTR_BYTES \<le> PTRDIFF_MAX" "s_data s \<le> brk m" "s_data s \<noteq> NULL" "p \<noteq> NULL" "p \<le> brk m"
    by (auto elim!: stack_okE)
  show ?thesis
  proof (cases "s_size s = s_capacity s")
    case False
    with b have lt: "s_size s < s_capacity s" by simp
    show ?thesis unfolding push_room[OF st b(1,2) lt b(4,7)] using lt by simp
  next
    case True
    show ?thesis
    proof (cases "grow_fits m s")
      case fits: True
      from grow_succeeds[OF st b(1,2,4,6) fits] obtain m1 where g: "grow p m = Inr m1" by blast
      note gs = grow_spec[OF st b(1,2,4,6) g]
      have lt: "s_capacity s < grown (s_capacity s)" by (simp add: grown_def)
      have "\<exists>m'. push p x m = Inr m'"
        using st True b(2,7) g lt unfolding push_def gs(1)
        by (simp split: prod.splits)
      with fits show ?thesis by simp
    next
      case nofit: False
      with grow_result[OF st b(1,2,4,6)] have "grow p m = Inl ExitFailure" by simp
      with st True b(7) nofit show ?thesis by (simp add: push_def)
    qed
  qed
qed

lemma push_succeeds:
  assumes ok: "stack_ok m p"
    and "size_of m p < capacity_of m p \<or>
         grown (capacity_of m p) * PTR_BYTES \<le> PTRDIFF_MAX \<and>
         grown (capacity_of m p) * PTR_BYTES \<le> avail m"
  shows "\<exists>m'. push p x m = Inr m'"
proof -
  from ok obtain s where st: "structs m p = Some s" by (auto elim!: stack_okE)
  from assms(2) st have "s_size s < s_capacity s \<or> grow_fits m s"
    by (auto simp: size_of_def capacity_of_def grow_fits_def)
  with push_result[OF ok st, of x] show ?thesis by simp
qed

lemma push_no_UB:
  assumes "stack_ok m p"
  shows "push p x m \<noteq> Inl UndefinedBehaviour"
proof -
  from assms obtain s where st: "structs m p = Some s" by (auto elim!: stack_okE)
  from push_result[OF assms st, of x] show ?thesis by (auto split: if_splits)
qed

lemma push_abs:
  assumes ok: "stack_ok m p" and st: "structs m p = Some s" and pu: "push p x m = Inr m'"
  shows "stack_ok m' p"
    and "elements m' p = elements m p @ [fst (s_copy s x (world m))]"
    and "world m' = snd (s_copy s x (world m))"
    and "size_of m' p = Suc (size_of m p)"
    and "capacity_of m' p =
           (if size_of m p = capacity_of m p then grown (capacity_of m p) else capacity_of m p)"
    and "ops_of m' p = ops_of m p"
proof -
  from ok st obtain buf where b: "arrays m (s_data s) = Some buf"
    "length buf = s_capacity s" "s_size s \<le> s_capacity s"
    "s_capacity s * PTR_BYTES \<le> PTRDIFF_MAX" "s_data s \<le> brk m" "s_data s \<noteq> NULL" "p \<noteq> NULL" "p \<le> brk m"
    by (auto elim!: stack_okE)
  have "stack_ok m' p \<and> elements m' p = elements m p @ [fst (s_copy s x (world m))] \<and>
    world m' = snd (s_copy s x (world m)) \<and> size_of m' p = Suc (size_of m p) \<and>
    capacity_of m' p =
           (if size_of m p = capacity_of m p then grown (capacity_of m p) else capacity_of m p) \<and>
    ops_of m' p = ops_of m p" (is ?all)
  proof (cases "s_size s = s_capacity s")
    case True
    note f = push_full[OF st b(1,2) True b(4,7,6) pu]
    have lt: "s_capacity s < grown (s_capacity s)" by (simp add: grown_def)
    have "stack_ok m' p"
      unfolding f(1) using b f(2) True lt
      by (simp add: stack_ok_def NULL_def grow_fits_def grow_data_def)
    moreover have "elements m' p = elements m p @ [fst (s_copy s x (world m))]"
      unfolding f(1) using b st True lt by (simp add: abs_defs take_Suc_update)
    ultimately show ?thesis unfolding f(1) using st True by (simp add: abs_defs)
  next
    case False
    with b have lt: "s_size s < s_capacity s" by simp
    from pu have m': "m' = m\<lparr>world := snd (s_copy s x (world m)),
            arrays := (arrays m)(s_data s \<mapsto> buf[s_size s := fst (s_copy s x (world m))]),
            structs := (structs m)(p \<mapsto> s\<lparr>s_size := Suc (s_size s)\<rparr>)\<rparr>"
      unfolding push_room[OF st b(1,2) lt b(4,7)] by simp
    have "stack_ok m' p"
      unfolding m' using b lt by (simp add: stack_ok_def)
    moreover have "elements m' p = elements m p @ [fst (s_copy s x (world m))]"
      unfolding m' using b st lt by (simp add: abs_defs take_Suc_update)
    ultimately show ?thesis unfolding m' using st False by (simp add: abs_defs)
  qed
  then show "stack_ok m' p"
    and "elements m' p = elements m p @ [fst (s_copy s x (world m))]"
    and "world m' = snd (s_copy s x (world m))"
    and "size_of m' p = Suc (size_of m p)"
    and "capacity_of m' p =
           (if size_of m p = capacity_of m p then grown (capacity_of m p) else capacity_of m p)"
    and "ops_of m' p = ops_of m p" by simp_all
qed

lemma push_frame:
  assumes ok: "stack_ok m p" and pu: "push p x m = Inr m'"
  shows "q \<noteq> p \<Longrightarrow> structs m' q = structs m q"
    and "a \<noteq> s_data (the (structs m p)) \<Longrightarrow> a \<le> brk m \<Longrightarrow> arrays m' a = arrays m a"
    and "brk m \<le> brk m'" and "cells m' = cells m" and "junk m' = junk m"
    and "size_of m p < capacity_of m p \<Longrightarrow> avail m' = avail m"
proof -
  from ok obtain s buf where st: "structs m p = Some s" and b: "arrays m (s_data s) = Some buf"
    "length buf = s_capacity s" "s_size s \<le> s_capacity s"
    "s_capacity s * PTR_BYTES \<le> PTRDIFF_MAX" "s_data s \<le> brk m" "s_data s \<noteq> NULL" "p \<noteq> NULL" "p \<le> brk m"
    by (auto elim!: stack_okE)
  have "(q \<noteq> p \<longrightarrow> structs m' q = structs m q) \<and>
    (a \<noteq> s_data s \<longrightarrow> a \<le> brk m \<longrightarrow> arrays m' a = arrays m a) \<and>
    brk m \<le> brk m' \<and> cells m' = cells m \<and> junk m' = junk m \<and>
    (s_size s < s_capacity s \<longrightarrow> avail m' = avail m)"
  proof (cases "s_size s = s_capacity s")
    case True
    show ?thesis unfolding push_full(1)[OF st b(1,2) True b(4,7,6) pu] using True
      by (simp add: grow_data_def)
  next
    case False
    with b have lt: "s_size s < s_capacity s" by simp
    from pu show ?thesis unfolding push_room[OF st b(1,2) lt b(4,7)] by auto
  qed
  with st show "q \<noteq> p \<Longrightarrow> structs m' q = structs m q"
    and "a \<noteq> s_data (the (structs m p)) \<Longrightarrow> a \<le> brk m \<Longrightarrow> arrays m' a = arrays m a"
    and "brk m \<le> brk m'" and "cells m' = cells m" and "junk m' = junk m"
    and "size_of m p < capacity_of m p \<Longrightarrow> avail m' = avail m"
    by (simp_all add: size_of_def capacity_of_def)
qed

lemma push_all_abs:
  assumes "stack_ok m p" and "ops_of m p = Some (cf, ff, cmpf)" and "push_all p es m = Inr m'"
  shows "stack_ok m' p \<and> elements m' p = elements m p @ fst (copy_all cf es (world m)) \<and>
         world m' = snd (copy_all cf es (world m)) \<and> ops_of m' p = ops_of m p"
  using assms
proof (induction es arbitrary: m)
  case Nil
  then show ?case by simp
next
  case (Cons e es)
  from Cons.prems(3) obtain m1 where p1: "push p e m = Inr m1" and r: "push_all p es m1 = Inr m'"
    by (auto split: sum.splits)
  from Cons.prems(2) obtain s where st: "structs m p = Some s" and cf: "s_copy s = cf"
    by (auto simp: ops_of_def split: option.splits)
  note a = push_abs[OF Cons.prems(1) st p1]
  from Cons.IH[OF a(1) _ r] a Cons.prems(2) cf show ?case
    by (simp add: copy_all_Cons del: copy_all.simps(2))
qed

lemma push_all_room:
  assumes "stack_ok m p" and "size_of m p + length es \<le> capacity_of m p"
  shows "\<exists>m'. push_all p es m = Inr m'"
  using assms
proof (induction es arbitrary: m)
  case Nil
  then show ?case by simp
next
  case (Cons e es)
  from Cons.prems have lt: "size_of m p < capacity_of m p" by simp
  with push_succeeds[OF Cons.prems(1)] obtain m1 where p1: "push p e m = Inr m1" by blast
  from Cons.prems(1) obtain s where st: "structs m p = Some s" by (auto elim!: stack_okE)
  note a = push_abs[OF Cons.prems(1) st p1]
  from a(4,5) lt Cons.prems(2) have "size_of m1 p + length es \<le> capacity_of m1 p" by simp
  from Cons.IH[OF a(1) this] p1 show ?case by simp
qed

subsection \<open>\<^verbatim>\<open>pop\<close>\<close>

lemma pop_abs:
  assumes ok: "stack_ok m p" and ne: "elements m p \<noteq> []"
  shows "\<exists>m'. pop p m = Inr (last (elements m p), m') \<and> stack_ok m' p \<and>
           elements m' p = butlast (elements m p) \<and> world m' = world m \<and>
           size_of m' p = size_of m p - 1 \<and> capacity_of m' p = capacity_of m p \<and>
           ops_of m' p = ops_of m p \<and> buffer m' p ! size_of m' p = NULL"
proof -
  from ok obtain s buf where st: "structs m p = Some s" and b: "arrays m (s_data s) = Some buf"
    "length buf = s_capacity s" "s_size s \<le> s_capacity s"
    "s_capacity s * PTR_BYTES \<le> PTRDIFF_MAX" "s_data s \<le> brk m" "s_data s \<noteq> NULL" "p \<noteq> NULL" "p \<le> brk m"
    by (auto elim!: stack_okE)
  from ne st b have pos: "0 < s_size s" by (auto simp: abs_defs)
  let ?m' = "m\<lparr>arrays := (arrays m)(s_data s \<mapsto> buf[s_size s - 1 := NULL]),
               structs := (structs m)(p \<mapsto> s\<lparr>s_size := s_size s - 1\<rparr>)\<rparr>"
  have p: "pop p m = Inr (buf ! (s_size s - 1), ?m')"
    using st b pos by (simp add: pop_def)
  have l: "last (elements m p) = buf ! (s_size s - 1)"
    using st b pos by (simp add: abs_defs last_take)
  have e: "elements ?m' p = butlast (elements m p)"
    using st b pos by (simp add: abs_defs butlast_take)
  have o: "stack_ok ?m' p" using st b by (simp add: stack_ok_def)
  have r: "buffer ?m' p ! size_of ?m' p = NULL" using st b pos by (simp add: abs_defs)
  show ?thesis unfolding p l using e o r st by (simp add: abs_defs)
qed

lemma pop_empty:
  assumes "stack_ok m p" and "elements m p = []"
  shows "pop p m = Inr (NULL, m)"
  using assms by (auto elim!: stack_okE simp: abs_defs pop_def)

lemma pop_n_abs:
  assumes "stack_ok m p" and "n \<le> length (elements m p)"
  shows "\<exists>m'. pop_n n p m = Inr (rev (drop (length (elements m p) - n) (elements m p)), m') \<and>
           stack_ok m' p \<and> elements m' p = take (length (elements m p) - n) (elements m p) \<and>
           world m' = world m \<and> capacity_of m' p = capacity_of m p \<and> ops_of m' p = ops_of m p"
  using assms
proof (induction n arbitrary: m)
  case 0
  then show ?case by simp
next
  case (Suc n)
  let ?es = "elements m p"
  from Suc.prems have ne: "?es \<noteq> []" by auto
  from pop_abs[OF Suc.prems(1) ne] obtain m1 where
    p1: "pop p m = Inr (last ?es, m1)" and ok1: "stack_ok m1 p"
    and e1: "elements m1 p = butlast ?es" and w1: "world m1 = world m"
    and c1: "capacity_of m1 p = capacity_of m p" and o1: "ops_of m1 p = ops_of m p"
    by blast
  from Suc.prems e1 have le: "n \<le> length (elements m1 p)" by simp
  from Suc.IH[OF ok1 le] obtain m' where
    r: "pop_n n p m1 = Inr (rev (drop (length (elements m1 p) - n) (elements m1 p)), m')"
    and ok': "stack_ok m' p"
    and e': "elements m' p = take (length (elements m1 p) - n) (elements m1 p)"
    and w': "world m' = world m1" and c': "capacity_of m' p = capacity_of m1 p"
    and o': "ops_of m' p = ops_of m1 p"
    by blast
  from ne obtain xs y where xy: "?es = xs @ [y]" by (cases ?es rule: rev_cases) auto
  have d: "drop (length ?es - Suc n) ?es = drop (length ?es - Suc n) (butlast ?es) @ [last ?es]"
    unfolding xy by simp
  have t: "take (length (butlast ?es) - n) (butlast ?es) = take (length ?es - Suc n) ?es"
    unfolding xy by simp
  show ?case
    unfolding pop_n.simps p1 using r ok' e' w' c' o' e1 w1 c1 o1 d t by simp
qed

subsection \<open>\<^verbatim>\<open>clear\<close>\<close>

lemma clear_loop_spec:
  assumes "structs m p = Some s" and "arrays m (s_data s) = Some buf"
    and "s_size s \<le> length buf"
  shows "clear_loop p i m =
     Inr (m\<lparr>world := foldl (\<lambda>w e. s_free_func s e w) (world m)
                         (drop i (take (s_size s) buf))\<rparr>)"
  using assms
proof (induction p i m rule: clear_loop.induct)
  case (1 stack i m)
  show ?case
  proof (cases "i < s_size s")
    case True
    with 1 have lt: "i < length buf" by simp
    let ?m1 = "m\<lparr>world := s_free_func s (buf ! i) (world m)\<rparr>"
    have step: "clear_loop stack i m = clear_loop stack (i + 1) ?m1"
      using 1(2,3) True lt by (subst clear_loop.simps) simp
    have ih: "clear_loop stack (i + 1) ?m1 =
      Inr (?m1\<lparr>world := foldl (\<lambda>w e. s_free_func s e w) (world ?m1)
                         (drop (i + 1) (take (s_size s) buf))\<rparr>)"
      using 1(1)[OF 1(2) True 1(3) lt] 1(2,3,4) by simp
    have d: "drop i (take (s_size s) buf) = buf ! i # drop (i + 1) (take (s_size s) buf)"
      using True lt by (simp add: Cons_nth_drop_Suc[symmetric])
    show ?thesis unfolding step ih d by simp
  next
    case False
    then show ?thesis using 1(2) by (subst clear_loop.simps) simp
  qed
qed

lemma clear_spec:
  assumes ok: "stack_ok m p" and st: "structs m p = Some s"
  shows "clear p m =
     Inr (m\<lparr>world := foldl (\<lambda>w e. s_free_func s e w) (world m) (elements m p),
            structs := (structs m)(p \<mapsto> s\<lparr>s_size := 0\<rparr>)\<rparr>)"
proof -
  from ok st obtain buf where b: "arrays m (s_data s) = Some buf"
    "length buf = s_capacity s" "s_size s \<le> s_capacity s" "p \<noteq> NULL" "p \<le> brk m"
    by (auto elim!: stack_okE)
  from b have le: "s_size s \<le> length buf" by simp
  show ?thesis
    unfolding clear_def clear_loop_spec[OF st b(1) le] using b st
    by (simp add: abs_defs)
qed

subsection \<open>\<^verbatim>\<open>reverse\<close>\<close>

lemma swap_range_done: "r \<le> l \<Longrightarrow> swap_range xs l r = xs"
proof -
  assume rl: "r \<le> l"
  have "(if l \<le> i \<and> i \<le> r then xs ! (l + r - i) else xs ! i) = xs ! i" for i
  proof (cases "l \<le> i \<and> i \<le> r")
    case True
    with rl have "l + r - i = i" by linarith
    with True show ?thesis by simp
  next
    case False
    then show ?thesis by auto
  qed
  then show ?thesis by (simp add: swap_range_def map_nth)
qed

lemma swap_range_step:
  assumes "l < r" and "r < length xs"
  shows "swap_range (xs[l := xs ! r, r := xs ! l]) (l + 1) (r - 1) = swap_range xs l r"
  using assms
  by (auto simp: swap_range_def nth_list_update intro!: nth_equalityI)

lemma swap_range_rev:
  assumes "0 < n" and "n \<le> length xs"
  shows "swap_range xs 0 (n - 1) = rev (take n xs) @ drop n xs"
  using assms
  by (auto simp: swap_range_def nth_append rev_nth min_def intro!: nth_equalityI)

lemma mem_arrays_triv: "arrays m a = Some buf \<Longrightarrow> m\<lparr>arrays := (arrays m)(a \<mapsto> buf)\<rparr> = m"
  by (simp add: map_upd_triv)

lemma reverse_loop_spec:
  assumes "structs m p = Some s" and "arrays m (s_data s) = Some buf"
    and "right < length buf"
  shows "reverse_loop p left right m =
     Inr (m\<lparr>arrays := (arrays m)(s_data s \<mapsto> swap_range buf left right)\<rparr>)"
  using assms
proof (induction p left right m arbitrary: buf rule: reverse_loop.induct)
  case (1 stack left right m)
  show ?case
  proof (cases "left < right")
    case True
    let ?buf' = "buf[left := buf ! right, right := buf ! left]"
    let ?m1 = "m\<lparr>arrays := (arrays m)(s_data s \<mapsto> ?buf')\<rparr>"
    have step: "reverse_loop stack left right m = reverse_loop stack (left + 1) (right - 1) ?m1"
      using 1(2,3,4) True by (subst reverse_loop.simps) simp
    have ih: "reverse_loop stack (left + 1) (right - 1) ?m1 =
      Inr (?m1\<lparr>arrays := (arrays ?m1)(s_data s \<mapsto> swap_range ?buf' (left + 1) (right - 1))\<rparr>)"
      by (rule 1(1)[OF True 1(2) 1(3) 1(4)]) (use 1(2,4) in simp_all)
    have eq: "(arrays ?m1)(s_data s \<mapsto> swap_range buf left right) =
        (arrays m)(s_data s \<mapsto> swap_range buf left right)" by simp
    show ?thesis
      unfolding step ih swap_range_step[OF True 1(4)] eq by (simp add: fun_upd_def)
  next
    case False
    then have "swap_range buf left right = buf" by (simp add: swap_range_done)
    with False 1(3) show ?thesis
      by (subst reverse_loop.simps) (simp add: map_upd_triv)
  qed
qed

lemma reverse_spec:
  assumes ok: "stack_ok m p" and st: "structs m p = Some s"
  shows "reverse p m =
           Inr (m\<lparr>arrays := (arrays m)
                  (s_data s \<mapsto> rev (elements m p) @ drop (size_of m p) (buffer m p))\<rparr>)"
proof -
  from ok st obtain buf where b: "arrays m (s_data s) = Some buf"
    "length buf = s_capacity s" "s_size s \<le> s_capacity s" "p \<noteq> NULL" "p \<le> brk m"
    by (auto elim!: stack_okE)
  show ?thesis
  proof (cases "s_size s = 0")
    case True
    with st b show ?thesis by (simp add: reverse_def abs_defs mem_arrays_triv)
  next
    case False
    with b have r: "s_size s - 1 < length buf" and pos: "0 < s_size s" "s_size s \<le> length buf"
      by simp_all
    have rl: "reverse_loop p 0 (s_size s - 1) m =
        Inr (m\<lparr>arrays := (arrays m)
               (s_data s \<mapsto> rev (take (s_size s) buf) @ drop (s_size s) buf)\<rparr>)"
      unfolding reverse_loop_spec[OF st b(1) r] swap_range_rev[OF pos] ..
    show ?thesis
      using st b False rl by (simp add: reverse_def abs_defs)
  qed
qed

subsection \<open>\<^verbatim>\<open>contains\<close>\<close>

lemma contains_loop_spec:
  assumes "structs m p = Some s" and "arrays m (s_data s) = Some buf"
    and "s_size s \<le> length buf" and "s_cmp s = Some f"
  shows "contains_loop p x i m =
     Inr (\<exists>j. i \<le> j \<and> j < s_size s \<and> f (buf ! j) x (world m) = 0)"
  using assms
proof (induction p x i m rule: contains_loop.induct)
  case (1 stack element i m)
  show ?case
  proof (cases "i < s_size s")
    case True
    with 1 have lt: "i < length buf" by simp
    show ?thesis
    proof (cases "f (buf ! i) element (world m) = 0")
      case True
      with \<open>i < s_size s\<close> lt 1(2,3,5) show ?thesis
        by (subst contains_loop.simps) auto
    next
      case False
      have step: "contains_loop stack element i m = contains_loop stack element (i + 1) m"
        using 1(2,3,5) \<open>i < s_size s\<close> lt False by (subst contains_loop.simps) simp
      have ih: "contains_loop stack element (i + 1) m =
          Inr (\<exists>j. i + 1 \<le> j \<and> j < s_size s \<and> f (buf ! j) element (world m) = 0)"
        by (rule 1(1)[OF 1(2) \<open>i < s_size s\<close> 1(3) lt 1(5) False 1(2) 1(3) 1(4) 1(5)])
      have "(\<exists>j. i + 1 \<le> j \<and> j < s_size s \<and> f (buf ! j) element (world m) = 0) =
            (\<exists>j. i \<le> j \<and> j < s_size s \<and> f (buf ! j) element (world m) = 0)"
        using False by (metis Suc_eq_plus1 Suc_leI le_neq_implies_less Suc_leD)
      then show ?thesis unfolding step ih by simp
    qed
  next
    case False
    then show ?thesis using 1(2) by (subst contains_loop.simps) auto
  qed
qed

subsection \<open>\<^verbatim>\<open>to_array\<close>\<close>

lemma to_array_loop_spec:
  assumes "structs m p = Some s" and "arrays m (s_data s) = Some buf"
    and "arrays m a = Some arr" and "a \<noteq> s_data s"
    and "s_size s \<le> length buf" and "s_size s \<le> length arr" and "i \<le> s_size s"
  shows "to_array_loop p a i m =
     Inr (m\<lparr>world := snd (copy_all (s_copy s) (drop i (take (s_size s) buf)) (world m)),
            arrays := (arrays m)(a \<mapsto>
              take i arr @ fst (copy_all (s_copy s) (drop i (take (s_size s) buf)) (world m)) @
              drop (s_size s) arr)\<rparr>)"
  using assms
proof (induction p a i m arbitrary: arr rule: to_array_loop.induct)
  case (1 stack array i m)
  show ?case
  proof (cases "i < s_size s")
    case True
    with 1 have lt: "i < length buf" "i < length arr" by simp_all
    let ?c = "fst (s_copy s (buf ! i) (world m))"
    let ?w = "snd (s_copy s (buf ! i) (world m))"
    let ?m1 = "m\<lparr>world := ?w, arrays := (arrays m)(array \<mapsto> arr[i := ?c])\<rparr>"
    have cw: "s_copy s (buf ! i) (world m) = (?c, ?w)" by simp
    have step: "to_array_loop stack array i m = to_array_loop stack array (i + 1) ?m1"
      using 1(2,3,4) True lt by (subst to_array_loop.simps) (simp split: prod.splits)
    have ih: "to_array_loop stack array (i + 1) ?m1 =
      Inr (?m1\<lparr>world := snd (copy_all (s_copy s) (drop (i + 1) (take (s_size s) buf)) (world ?m1)),
            arrays := (arrays ?m1)(array \<mapsto>
              take (i + 1) (arr[i := ?c]) @
              fst (copy_all (s_copy s) (drop (i + 1) (take (s_size s) buf)) (world ?m1)) @
              drop (s_size s) (arr[i := ?c]))\<rparr>)"
      by (rule 1(1)[OF 1(2) True 1(3) lt(1) cw[symmetric] 1(4) lt(2)])
         (use 1(2,3,5,6,7) True in simp_all)
    have d: "drop i (take (s_size s) buf) = buf ! i # drop (i + 1) (take (s_size s) buf)"
      using True lt by (simp add: Cons_nth_drop_Suc[symmetric])
    have t: "take (i + 1) (arr[i := ?c]) = take i arr @ [?c]"
      using lt by (simp add: take_Suc_update)
    have dr: "drop (s_size s) (arr[i := ?c]) = drop (s_size s) arr"
      using True by simp
    have w1: "world ?m1 = ?w" by simp
    have eq: "\<And>X. (arrays ?m1)(array \<mapsto> X) = (arrays m)(array \<mapsto> X)" by simp
    show ?thesis
      unfolding step ih d t dr w1 eq copy_all_Cons by (simp add: fun_upd_def)
  next
    case False
    with 1(8) have e: "i = s_size s" by simp
    have "take (s_size s) arr @ drop (s_size s) arr = arr" by simp
    with False 1(2,4) show ?thesis
      by (subst to_array_loop.simps) (simp add: e mem_arrays_triv)
  qed
qed

lemma to_array_empty:
  assumes "stack_ok m p" and "elements m p = []"
  shows "to_array p out m = Inr (NULL, set_out_size out 0 m)"
proof -
  from assms(1) obtain s where st: "structs m p = Some s" and n: "p \<noteq> NULL"
    by (auto elim!: stack_okE)
  from observers_abs(4)[OF assms(1)] assms(2) st have "s_size s = 0"
    by (simp add: size_of_def)
  with st n show ?thesis by (simp add: to_array_def)
qed

lemma to_array_spec:
  assumes ok: "stack_ok m p" and st: "structs m p = Some s" and ne: "s_size s \<noteq> 0"
  shows "to_array p out m =
     (if s_size s * PTR_BYTES \<le> avail m then
        Inr (Suc (brk m),
             set_out_size out (s_size s)
               (m\<lparr>brk := Suc (brk m), avail := avail m - s_size s * PTR_BYTES,
                  world := snd (copy_all (s_copy s) (elements m p) (world m)),
                  arrays := (arrays m)(Suc (brk m) \<mapsto>
                     fst (copy_all (s_copy s) (elements m p) (world m)))\<rparr>))
      else Inl ExitFailure)"
proof -
  from ok st obtain buf where b: "arrays m (s_data s) = Some buf"
    "length buf = s_capacity s" "s_size s \<le> s_capacity s"
    "s_capacity s * PTR_BYTES \<le> PTRDIFF_MAX" "s_data s \<le> brk m" "s_data s \<noteq> NULL" "p \<noteq> NULL" "p \<le> brk m"
    by (auto elim!: stack_okE)
  let ?n = "s_size s"
  let ?a = "Suc (brk m)"
  have sm: "size_mul ?n PTR_BYTES = ?n * PTR_BYTES"
    using b(3,4) by (simp add: size_mul_def c_consts)
  have le: "?n * PTR_BYTES \<le> PTRDIFF_MAX" using b(3,4) by (simp add: c_consts)
  have dv: "?n * PTR_BYTES div PTR_BYTES = ?n" by (simp add: c_consts)
  have es: "elements m p = take ?n buf" using st b by (simp add: abs_defs)
  show ?thesis
  proof (cases "?n * PTR_BYTES \<le> avail m")
    case False
    with st ne b(7) le show ?thesis
      by (simp add: to_array_def sm malloc_array_def reserve_def)
  next
    case True
    let ?arr = "map (junk m ?a) [0..<?n]"
    let ?m1 = "m\<lparr>brk := ?a, avail := avail m - ?n * PTR_BYTES,
                 arrays := (arrays m)(?a \<mapsto> ?arr)\<rparr>"
    have ma: "malloc_array (?n * PTR_BYTES) m = (?a, ?m1)"
      using True le by (simp add: malloc_array_def reserve_def dv)
    have st1: "structs ?m1 p = Some s" using st by simp
    have neq: "?a \<noteq> s_data s" using b(5) by simp
    have b1: "arrays ?m1 (s_data s) = Some buf" using b(1) neq by simp
    have a1: "arrays ?m1 ?a = Some ?arr" by simp
    have l1: "?n \<le> length buf" "?n \<le> length ?arr" "0 \<le> ?n" using b by simp_all
    note lp = to_array_loop_spec[OF st1 b1 a1 neq l1]
    show ?thesis
      using st ne b(7) True
      by (simp add: to_array_def sm ma lp es NULL_def set_out_size_def)
  qed
qed

subsection \<open>\<^verbatim>\<open>peek\<close>\<close>

lemma peek_abs:
  assumes "stack_ok m p"
  shows "peek p m = Inr (if elements m p = [] then NULL else last (elements m p))"
proof -
  from assms obtain s buf where st: "structs m p = Some s" and b: "arrays m (s_data s) = Some buf"
    "length buf = s_capacity s" "s_size s \<le> s_capacity s" "p \<noteq> NULL"
    by (auto elim!: stack_okE)
  show ?thesis
  proof (cases "s_size s = 0")
    case True
    with st b show ?thesis by (simp add: peek_def abs_defs)
  next
    case False
    with b have pos: "0 < s_size s" "s_size s \<le> length buf" by simp_all
    then have ne: "take (s_size s) buf \<noteq> []" by auto
    from st b False pos ne show ?thesis by (simp add: peek_def abs_defs last_take)
  qed
qed

subsection \<open>Two stacks, and \<^verbatim>\<open>clone\<close>\<close>

lemma push_data:
  assumes ok: "stack_ok m p" and pu: "push p x m = Inr m'"
  shows "data_of m' p = data_of m p \<or> data_of m' p = Suc (brk m)"
proof -
  from ok obtain s buf where st: "structs m p = Some s" and b: "arrays m (s_data s) = Some buf"
    "length buf = s_capacity s" "s_size s \<le> s_capacity s"
    "s_capacity s * PTR_BYTES \<le> PTRDIFF_MAX" "s_data s \<le> brk m" "s_data s \<noteq> NULL" "p \<noteq> NULL" "p \<le> brk m"
    by (auto elim!: stack_okE)
  show ?thesis
  proof (cases "s_size s = s_capacity s")
    case True
    show ?thesis unfolding push_full(1)[OF st b(1,2) True b(4,7,6) pu] using st
      by (simp add: data_of_def grow_data_def)
  next
    case False
    with b have lt: "s_size s < s_capacity s" by simp
    from pu st show ?thesis unfolding push_room[OF st b(1,2) lt b(4,7)] by (auto simp: data_of_def)
  qed
qed

lemma separate_sym: "separate m p c \<Longrightarrow> separate m c p"
  by (auto simp: separate_def)

lemma frame_other:
  assumes ok: "stack_ok m p"
    and s: "structs m' p = structs m p"
    and a: "arrays m' (data_of m p) = arrays m (data_of m p)"
    and b: "brk m \<le> brk m'"
  shows "stack_ok m' p" and "buffer m' p = buffer m p" and "elements m' p = elements m p"
    and "data_of m' p = data_of m p" and "size_of m' p = size_of m p"
    and "capacity_of m' p = capacity_of m p" and "ops_of m' p = ops_of m p"
  using assms
  by (auto simp: stack_ok_def abs_defs data_of_def split: option.splits)

lemma push_other:
  assumes sep: "separate m p c" and pu: "push c x m = Inr m'"
  shows "separate m' p c" and "structs m' p = structs m p" and "buffer m' p = buffer m p"
    and "elements m' p = elements m p"
proof -
  from sep have okp: "stack_ok m p" and okc: "stack_ok m c" and ne: "p \<noteq> c"
    and dn: "data_of m p \<noteq> data_of m c"
    by (simp_all add: separate_def)
  from okc obtain sc where sc: "structs m c = Some sc" by (auto elim!: stack_okE)
  from okp obtain sp where sp: "structs m p = Some sp" and le: "s_data sp \<le> brk m"
    by (auto elim!: stack_okE)
  note f = push_frame[OF okc pu]
  have s: "structs m' p = structs m p" using f(1)[OF ne] .
  have dp: "data_of m p = s_data sp" "data_of m c = s_data sc"
    using sp sc by (simp_all add: data_of_def)
  have a: "arrays m' (data_of m p) = arrays m (data_of m p)"
    using f(2)[of "data_of m p"] dn le sc unfolding dp by simp
  note fo = frame_other[OF okp s a f(3)]
  from push_data[OF okc pu] dn le fo(4) dp have "data_of m' p \<noteq> data_of m' c" by auto
  with fo(1) push_abs(1)[OF okc sc pu] ne show "separate m' p c" by (simp add: separate_def)
  show "structs m' p = structs m p" by (rule s)
  show "buffer m' p = buffer m p" by (rule fo(2))
  show "elements m' p = elements m p" by (rule fo(3))
qed

lemma pop_other:
  assumes sep: "separate m p c" and po: "pop c m = Inr (y, m')"
  shows "separate m' p c" and "structs m' p = structs m p" and "buffer m' p = buffer m p"
    and "elements m' p = elements m p"
proof -
  from sep have okp: "stack_ok m p" and okc: "stack_ok m c" and ne: "p \<noteq> c"
    and dn: "data_of m p \<noteq> data_of m c"
    by (simp_all add: separate_def)
  from okc obtain sc buf where sc: "structs m c = Some sc" "arrays m (s_data sc) = Some buf"
    "length buf = s_capacity sc" "s_size sc \<le> s_capacity sc" "c \<noteq> NULL"
    by (auto elim!: stack_okE)
  have dc: "data_of m c = s_data sc" using sc by (simp add: data_of_def)
  have "structs m' p = structs m p \<and> arrays m' (data_of m p) = arrays m (data_of m p) \<and>
        brk m' = brk m \<and> stack_ok m' c \<and> data_of m' c = data_of m c"
    using po sc ne dn okc unfolding dc
    by (auto simp: pop_def stack_ok_def data_of_def split: if_splits)
  then have s: "structs m' p = structs m p"
    and a: "arrays m' (data_of m p) = arrays m (data_of m p)" and b: "brk m \<le> brk m'"
    and okc': "stack_ok m' c" and dc': "data_of m' c = data_of m c" by simp_all
  note fo = frame_other[OF okp s a b]
  from fo(1,4) okc' dc' ne dn show "separate m' p c" by (simp add: separate_def)
  show "structs m' p = structs m p" by (rule s)
  show "buffer m' p = buffer m p" by (rule fo(2))
  show "elements m' p = elements m p" by (rule fo(3))
qed

lemma new_stack_other:
  assumes ok: "stack_ok m p" and n: "new_stack cf ff cmpf m = Inr (c, m1)"
  shows "separate m1 p c" and "structs m1 p = structs m p" and "buffer m1 p = buffer m p"
    and "elements m1 p = elements m p" and "c = Suc (brk m)"
proof -
  note sp = new_stack_spec[OF n]
  from ok obtain s where st: "structs m p = Some s" and le: "s_data s \<le> brk m" "p \<le> brk m"
    by (auto elim!: stack_okE)
  have s: "structs m1 p = structs m p" unfolding sp(2) using le by simp
  have a: "arrays m1 (data_of m p) = arrays m (data_of m p)"
    unfolding sp(2) using le st by (simp add: data_of_def)
  have b: "brk m \<le> brk m1" unfolding sp(2) by simp
  note fo = frame_other[OF ok s a b]
  have d: "data_of m1 c = Suc (Suc (brk m))" unfolding sp by (simp add: data_of_def)
  have "data_of m1 p \<noteq> data_of m1 c" unfolding d fo(4) using st le by (simp add: data_of_def)
  moreover have "p \<noteq> c" using sp(1) le by simp
  ultimately show "separate m1 p c"
    using fo(1) new_stack_abs(1)[OF n] by (simp add: separate_def)
  show "structs m1 p = structs m p" by (rule s)
  show "buffer m1 p = buffer m p" by (rule fo(2))
  show "elements m1 p = elements m p" by (rule fo(3))
  show "c = Suc (brk m)" by (rule sp(1))
qed

lemma clone_loop_spec:
  assumes "separate m p c" and "ops_of m c = ops_of m p" and "structs m p = Some s"
    and "clone_loop p c i m = Inr m'"
  shows "separate m' p c \<and> structs m' p = structs m p \<and> buffer m' p = buffer m p \<and>
         ops_of m' c = ops_of m c \<and>
         elements m' c = elements m c @ fst (copy_all (s_copy s) (drop i (elements m p)) (world m)) \<and>
         world m' = snd (copy_all (s_copy s) (drop i (elements m p)) (world m))"
  using assms
proof (induction p c i m rule: clone_loop.induct)
  case (1 stack clone i m)
  from 1(2) have okp: "stack_ok m stack" and okc: "stack_ok m clone"
    by (simp_all add: separate_def)
  from okp 1(4) obtain buf where b: "arrays m (s_data s) = Some buf"
    "length buf = s_capacity s" "s_size s \<le> s_capacity s"
    by (auto elim!: stack_okE)
  have es: "elements m stack = take (s_size s) buf" using 1(4) b by (simp add: abs_defs)
  show ?case
  proof (cases "i < s_size s")
    case False
    with 1(5) 1(4) have "m' = m" by (subst (asm) clone_loop.simps) simp
    with False es show ?thesis using 1(2) by simp
  next
    case True
    with b have lt: "i < length buf" by simp
    from 1(5) 1(4) b(1) True lt obtain m1 where
      pu: "push clone (buf ! i) m = Inr m1" and rest: "clone_loop stack clone (i + 1) m1 = Inr m'"
      by (subst (asm) clone_loop.simps) (auto split: sum.splits)
    from okc obtain sc where sc: "structs m clone = Some sc" by (auto elim!: stack_okE)
    from 1(3) 1(4) sc have cf: "s_copy sc = s_copy s" by (simp add: ops_of_def)
    note po = push_other[OF 1(2) pu]
    note pa = push_abs[OF okc sc pu]
    have st1: "structs m1 stack = Some s" using po(2) 1(4) by simp
    have ops1: "ops_of m1 clone = ops_of m1 stack"
      using pa(6) 1(3) po(2) by (simp add: ops_of_def)
    note ih = 1(1)[OF 1(4) True b(1) lt pu po(1) ops1 st1 rest]
    have d: "drop i (elements m stack) = buf ! i # drop (i + 1) (elements m stack)"
      unfolding es using True lt by (simp add: Cons_nth_drop_Suc[symmetric])
    from ih show ?thesis
      unfolding d copy_all_Cons po(2,3,4) pa(2,3,6) cf by simp
  qed
qed

lemma clone_spec:
  assumes ok: "stack_ok m p" and st: "structs m p = Some s" and cl: "clone p m = Inr (c, m')"
  shows "separate m' p c" and "structs m' p = structs m p" and "buffer m' p = buffer m p"
    and "ops_of m' c = ops_of m p"
    and "elements m' c = fst (copy_all (s_copy s) (elements m p) (world m))"
    and "world m' = snd (copy_all (s_copy s) (elements m p) (world m))"
    and "c = Suc (brk m)"
proof -
  from ok have n: "p \<noteq> NULL" by (auto elim!: stack_okE)
  from cl st n obtain m1 where
    ns: "new_stack (s_copy s) (s_free_func s) (s_cmp s) m = Inr (c, m1)"
    and lp: "clone_loop p c 0 m1 = Inr m'"
    by (auto simp: clone_def split: sum.splits)
  note no = new_stack_other[OF ok ns]
  note na = new_stack_abs[OF ns]
  have st1: "structs m1 p = Some s" using no(2) st by simp
  have ops: "ops_of m1 c = ops_of m1 p" using na(5) st1 by (simp add: ops_of_def)
  from clone_loop_spec[OF no(1) ops st1 lp]
  have r: "separate m' p c" "structs m' p = structs m1 p" "buffer m' p = buffer m1 p"
    "ops_of m' c = ops_of m1 c"
    "elements m' c = elements m1 c @ fst (copy_all (s_copy s) (drop 0 (elements m1 p)) (world m1))"
    "world m' = snd (copy_all (s_copy s) (drop 0 (elements m1 p)) (world m1))"
    by simp_all
  show "separate m' p c" by (rule r(1))
  show "structs m' p = structs m p" using r(2) no(2) by simp
  show "buffer m' p = buffer m p" using r(3) no(3) by simp
  show "ops_of m' c = ops_of m p" using r(4) na(5) st by (simp add: ops_of_def)
  show "elements m' c = fst (copy_all (s_copy s) (elements m p) (world m))"
    using r(5) na(2,6) no(4) by simp
  show "world m' = snd (copy_all (s_copy s) (elements m p) (world m))"
    using r(6) na(6) no(4) by simp
  show "c = Suc (brk m)" by (rule no(5))
qed

lemma mutate_other:
  assumes "separate m p c" and "mutate c ms m = Inr m'"
  shows "separate m' p c \<and> structs m' p = structs m p \<and> buffer m' p = buffer m p"
  using assms
proof (induction ms arbitrary: m)
  case Nil
  then show ?case by simp
next
  case (Cons a ms)
  show ?case
  proof (cases a)
    case (Push e)
    with Cons.prems(2) obtain m1 where pu: "push c e m = Inr m1" and r: "mutate c ms m1 = Inr m'"
      by (auto split: sum.splits)
    note po = push_other[OF Cons.prems(1) pu]
    from Cons.IH[OF po(1) r] po(2,3) show ?thesis by simp
  next
    case Pop
    with Cons.prems(2) obtain y m1 where pp: "pop c m = Inr (y, m1)" and r: "mutate c ms m1 = Inr m'"
      by (auto split: sum.splits)
    note po = pop_other[OF Cons.prems(1) pp]
    from Cons.IH[OF po(1) r] po(2,3) show ?thesis by simp
  qed
qed

lemma copy_all_contract:
  assumes "copy_contract live val cf" and "set es \<subseteq> live w"
  shows "map (val (snd (copy_all cf es w))) (fst (copy_all cf es w)) = map (val w) es \<and>
         live w \<subseteq> live (snd (copy_all cf es w)) \<and>
         (\<forall>r\<in>live w. val (snd (copy_all cf es w)) r = val w r) \<and>
         set (fst (copy_all cf es w)) \<subseteq> live (snd (copy_all cf es w)) - live w"
  using assms(2)
proof (induction es arbitrary: w)
  case Nil
  then show ?case by simp
next
  case (Cons e es)
  let ?c = "fst (cf e w)" and ?w1 = "snd (cf e w)"
  from Cons.prems have e: "e \<in> live w" and es: "set es \<subseteq> live w" by simp_all
  from assms(1) e have c: "?c \<notin> live w" "live ?w1 = insert ?c (live w)"
    "val ?w1 ?c = val w e" "\<forall>r\<in>live w. val ?w1 r = val w r"
    by (simp_all add: copy_contract_def)
  from es c(2) have es1: "set es \<subseteq> live ?w1" by auto
  let ?cs = "fst (copy_all cf es ?w1)" and ?w2 = "snd (copy_all cf es ?w1)"
  from Cons.IH[OF es1] have ih: "map (val ?w2) ?cs = map (val ?w1) es"
    "live ?w1 \<subseteq> live ?w2" "\<forall>r\<in>live ?w1. val ?w2 r = val ?w1 r"
    "set ?cs \<subseteq> live ?w2 - live ?w1"
    by simp_all
  have m1: "map (val ?w1) es = map (val w) es" using es c(4) by auto
  have v: "val ?w2 ?c = val w e" using ih(3) c(2,3) by simp
  have fr: "\<forall>r\<in>live w. val ?w2 r = val w r" using ih(3) c(2,4) by simp
  have sub: "live w \<subseteq> live ?w2" using ih(2) c(2) by auto
  have new: "set (?c # ?cs) \<subseteq> live ?w2 - live w" using ih(2,4) c(1,2) by auto
  show ?case
    unfolding copy_all_Cons using ih(1) m1 v fr sub new by simp
qed

lemma to_array_result:
  assumes "stack_ok m p" and "structs m p = Some s" and "to_array p out m = Inr (a, m')"
  shows "elements m p = [] \<Longrightarrow> a = NULL"
    and "elements m p \<noteq> [] \<Longrightarrow>
           a \<noteq> NULL \<and>
           arrays m' a = Some (fst (copy_all (s_copy s) (elements m p) (world m))) \<and>
           world m' = snd (copy_all (s_copy s) (elements m p) (world m))"
proof -
  show "elements m p = [] \<Longrightarrow> a = NULL"
    using to_array_empty[OF assms(1), of out] assms(3) by simp
  assume ne: "elements m p \<noteq> []"
  have "length (elements m p) = s_size s"
    using observers_abs(4)[OF assms(1)] assms(2) by (simp add: size_of_def)
  with ne have nz: "s_size s \<noteq> 0" by (metis length_0_conv)
  from assms(3) show "a \<noteq> NULL \<and>
           arrays m' a = Some (fst (copy_all (s_copy s) (elements m p) (world m))) \<and>
           world m' = snd (copy_all (s_copy s) (elements m p) (world m))"
    unfolding to_array_spec[OF assms(1,2) nz]
    by (auto simp: set_out_size_def NULL_def split: if_splits)
qed

subsection \<open>What each operation keeps of the stack it is called on\<close>

lemma pop_keeps:
  assumes "stack_ok m p" and "pop p m = Inr (y, m')"
  shows "stack_ok m' p" and "capacity_of m' p = capacity_of m p"
    and "elements m' p = butlast (elements m p)"
    and "elements m p \<noteq> [] \<Longrightarrow> buffer m' p ! size_of m' p = NULL"
proof -
  have "stack_ok m' p \<and> capacity_of m' p = capacity_of m p \<and>
        elements m' p = butlast (elements m p) \<and>
        (elements m p \<noteq> [] \<longrightarrow> buffer m' p ! size_of m' p = NULL)"
  proof (cases "elements m p = []")
    case True
    from pop_empty[OF assms(1) True] assms(2) have "m' = m" by simp
    with True assms(1) show ?thesis by simp
  next
    case False
    from pop_abs[OF assms(1) False] assms(2) show ?thesis by auto
  qed
  then show "stack_ok m' p" and "capacity_of m' p = capacity_of m p"
    and "elements m' p = butlast (elements m p)"
    and "elements m p \<noteq> [] \<Longrightarrow> buffer m' p ! size_of m' p = NULL" by simp_all
qed

lemma clear_keeps:
  assumes "stack_ok m p" and "clear p m = Inr m'"
  shows "stack_ok m' p" and "capacity_of m' p = capacity_of m p" and "elements m' p = []"
    and "buffer m' p = buffer m p"
proof -
  from assms(1) obtain s where st: "structs m p = Some s" by (auto elim!: stack_okE)
  from assms(2) have m': "m' = m\<lparr>world := foldl (\<lambda>w e. s_free_func s e w) (world m) (elements m p),
            structs := (structs m)(p \<mapsto> s\<lparr>s_size := 0\<rparr>)\<rparr>"
    unfolding clear_spec[OF assms(1) st] by simp
  show "stack_ok m' p" unfolding m' using assms(1) st
    by (auto simp: stack_ok_def split: option.splits)
  show "capacity_of m' p = capacity_of m p" unfolding m' using st by (simp add: abs_defs)
  show "elements m' p = []" unfolding m' by (simp add: abs_defs)
  show "buffer m' p = buffer m p" unfolding m' using st by (simp add: abs_defs)
qed

lemma reverse_keeps:
  assumes "stack_ok m p" and "reverse p m = Inr m'"
  shows "stack_ok m' p" and "capacity_of m' p = capacity_of m p"
    and "elements m' p = rev (elements m p)"
proof -
  from assms(1) obtain s buf where st: "structs m p = Some s"
    and b: "arrays m (s_data s) = Some buf" "length buf = s_capacity s"
      "s_size s \<le> s_capacity s"
    by (auto elim!: stack_okE)
  let ?buf' = "rev (elements m p) @ drop (size_of m p) (buffer m p)"
  from assms(2) have m': "m' = m\<lparr>arrays := (arrays m)(s_data s \<mapsto> ?buf')\<rparr>"
    unfolding reverse_spec[OF assms(1) st] by simp
  have len: "length ?buf' = length buf" using st b by (simp add: abs_defs)
  show "stack_ok m' p" unfolding m' using assms(1) st b len
    by (auto simp: stack_ok_def split: option.splits)
  show "capacity_of m' p = capacity_of m p" unfolding m' using st by (simp add: abs_defs)
  show "elements m' p = rev (elements m p)" unfolding m' using st b by (simp add: abs_defs)
qed

lemma to_array_keeps:
  assumes "stack_ok m p" and "to_array p out m = Inr (a, m')"
  shows "stack_ok m' p" and "capacity_of m' p = capacity_of m p"
    and "elements m' p = elements m p"
proof -
  from assms(1) obtain s where st: "structs m p = Some s" and le: "s_data s \<le> brk m"
    by (auto elim!: stack_okE)
  have "structs m' p = structs m p \<and> arrays m' (data_of m p) = arrays m (data_of m p) \<and>
        brk m \<le> brk m'"
  proof (cases "elements m p = []")
    case True
    from assms(2) show ?thesis
      unfolding to_array_empty[OF assms(1) True] by (auto simp: set_out_size_def)
  next
    case False
    have "length (elements m p) = s_size s"
      using observers_abs(4)[OF assms(1)] st by (simp add: size_of_def)
    with False have nz: "s_size s \<noteq> 0" by (metis length_0_conv)
    from assms(2) st le show ?thesis
      unfolding to_array_spec[OF assms(1) st nz]
      by (auto simp: set_out_size_def data_of_def split: if_splits)
  qed
  then have f: "structs m' p = structs m p" "arrays m' (data_of m p) = arrays m (data_of m p)"
    "brk m \<le> brk m'" by simp_all
  note fo = frame_other[OF assms(1) f]
  show "stack_ok m' p" by (rule fo(1))
  show "capacity_of m' p = capacity_of m p" by (rule fo(6))
  show "elements m' p = elements m p" by (rule fo(3))
qed

lemma clone_keeps:
  assumes "stack_ok m p" and "clone p m = Inr (c, m')"
  shows "stack_ok m' p" and "capacity_of m' p = capacity_of m p"
    and "elements m' p = elements m p" and "stack_ok m' c"
    and "case structs m p of None \<Rightarrow> False
         | Some s \<Rightarrow> elements m' c = fst (copy_all (s_copy s) (elements m p) (world m))"
proof -
  from assms(1) obtain s where st: "structs m p = Some s" by (auto elim!: stack_okE)
  note cs = clone_spec[OF assms(1) st assms(2)]
  from cs(1) show "stack_ok m' p" and "stack_ok m' c" by (simp_all add: separate_def)
  show "capacity_of m' p = capacity_of m p" using cs(2) by (simp add: capacity_of_def)
  show "elements m' p = elements m p" using cs(2,3) by (simp add: elements_def size_of_def)
  show "case structs m p of None \<Rightarrow> False
         | Some s \<Rightarrow> elements m' c = fst (copy_all (s_copy s) (elements m p) (world m))"
    using st cs(5) by simp
qed

lemma push_data_eq:
  assumes ok: "stack_ok m p" and st: "structs m p = Some s" and pu: "push p x m = Inr m'"
  shows "data_of m' p = (if s_size s = s_capacity s then grow_data m s else s_data s)"
    and "brk m' = (if s_size s = s_capacity s \<and> \<not> stays m s then Suc (brk m) else brk m)"
    and "avail m' + PTR_BYTES * capacity_of m' p = avail m + PTR_BYTES * capacity_of m p"
    and "in_place m' = in_place m"
proof -
  from ok st obtain buf where b: "arrays m (s_data s) = Some buf"
    "length buf = s_capacity s" "s_size s \<le> s_capacity s"
    "s_capacity s * PTR_BYTES \<le> PTRDIFF_MAX" "s_data s \<le> brk m" "s_data s \<noteq> NULL" "p \<noteq> NULL" "p \<le> brk m"
    by (auto elim!: stack_okE)
  have "data_of m' p = (if s_size s = s_capacity s then grow_data m s else s_data s) \<and>
    brk m' = (if s_size s = s_capacity s \<and> \<not> stays m s then Suc (brk m) else brk m) \<and>
    avail m' + PTR_BYTES * capacity_of m' p = avail m + PTR_BYTES * capacity_of m p \<and>
    in_place m' = in_place m"
  proof (cases "s_size s = s_capacity s")
    case True
    note f = push_full[OF st b(1,2) True b(4,7,6) pu]
    from f(2) have "grown (s_capacity s) * PTR_BYTES \<le> avail m + PTR_BYTES * s_capacity s"
      by (auto simp: grow_fits_def split: if_splits)
    then show ?thesis unfolding f(1) using st True
      by (simp add: data_of_def abs_defs mult.commute)
  next
    case False
    with b have lt: "s_size s < s_capacity s" by simp
    from pu st False show ?thesis unfolding push_room[OF st b(1,2) lt b(4,7)]
      by (auto simp: data_of_def abs_defs)
  qed
  then show "data_of m' p = (if s_size s = s_capacity s then grow_data m s else s_data s)"
    and "brk m' = (if s_size s = s_capacity s \<and> \<not> stays m s then Suc (brk m) else brk m)"
    and "avail m' + PTR_BYTES * capacity_of m' p = avail m + PTR_BYTES * capacity_of m p"
    and "in_place m' = in_place m"
    by simp_all
qed

lemma push_all_append:
  "push_all p (xs @ ys) m =
     (case push_all p xs m of Inl e \<Rightarrow> Inl e | Inr m1 \<Rightarrow> push_all p ys m1)"
  by (induction xs arbitrary: m) (auto split: sum.splits)

lemma push_all_room_abs:
  assumes "stack_ok m p" and "size_of m p + length es \<le> capacity_of m p"
    and "push_all p es m = Inr m'"
  shows "stack_ok m' p \<and> capacity_of m' p = capacity_of m p \<and>
         size_of m' p = size_of m p + length es"
  using assms
proof (induction es arbitrary: m)
  case Nil
  then show ?case by simp
next
  case (Cons e es)
  from Cons.prems(3) obtain m1 where p1: "push p e m = Inr m1" and r: "push_all p es m1 = Inr m'"
    by (auto split: sum.splits)
  from Cons.prems(1) obtain s where st: "structs m p = Some s" by (auto elim!: stack_okE)
  note a = push_abs[OF Cons.prems(1) st p1]
  from Cons.prems(2) have lt: "size_of m p < capacity_of m p" by simp
  with a(4,5) Cons.prems(2) have le: "size_of m1 p + length es \<le> capacity_of m1 p" by simp
  from Cons.IH[OF a(1) le r] a(4,5) lt show ?case by simp
qed

lemma copy_all_nonnull:
  assumes "\<forall>e w. fst (cf e w) \<noteq> NULL"
  shows "list_all (\<lambda>e. e \<noteq> NULL) (fst (copy_all cf es w))"
  using assms
  by (induction es arbitrary: w) (simp_all add: copy_all_Cons del: copy_all.simps(2))

lemma ops_kept:
  assumes "stack_ok m p"
  shows "push p x m = Inr m1 \<Longrightarrow> ops_of m1 p = ops_of m p"
    and "pop p m = Inr (y, m2) \<Longrightarrow> ops_of m2 p = ops_of m p"
    and "clear p m = Inr m3 \<Longrightarrow> ops_of m3 p = ops_of m p"
    and "reverse p m = Inr m4 \<Longrightarrow> ops_of m4 p = ops_of m p"
    and "to_array p out m = Inr (a, m5) \<Longrightarrow> ops_of m5 p = ops_of m p"
    and "clone p m = Inr (c, m6) \<Longrightarrow> ops_of m6 p = ops_of m p \<and> ops_of m6 c = ops_of m p"
proof -
  from assms obtain s where st: "structs m p = Some s" by (auto elim!: stack_okE)
  show "push p x m = Inr m1 \<Longrightarrow> ops_of m1 p = ops_of m p"
    using push_abs(6)[OF assms st] .
  show "pop p m = Inr (y, m2) \<Longrightarrow> ops_of m2 p = ops_of m p"
  proof (cases "elements m p = []")
    case True
    assume "pop p m = Inr (y, m2)"
    with pop_empty[OF assms True] show ?thesis by simp
  next
    case False
    assume "pop p m = Inr (y, m2)"
    with pop_abs[OF assms False] show ?thesis by auto
  qed
  show "clear p m = Inr m3 \<Longrightarrow> ops_of m3 p = ops_of m p"
    unfolding clear_spec[OF assms st] using st by (auto simp: ops_of_def)
  show "reverse p m = Inr m4 \<Longrightarrow> ops_of m4 p = ops_of m p"
    unfolding reverse_spec[OF assms st] by (auto simp: ops_of_def)
  show "to_array p out m = Inr (a, m5) \<Longrightarrow> ops_of m5 p = ops_of m p"
  proof -
    assume t: "to_array p out m = Inr (a, m5)"
    show ?thesis
    proof (cases "elements m p = []")
      case True
      from t show ?thesis unfolding to_array_empty[OF assms True]
        by (auto simp: set_out_size_def ops_of_def)
    next
      case False
      have "length (elements m p) = s_size s"
        using observers_abs(4)[OF assms] st by (simp add: size_of_def)
      with False have nz: "s_size s \<noteq> 0" by (metis length_0_conv)
      from t show ?thesis unfolding to_array_spec[OF assms st nz]
        by (auto simp: set_out_size_def ops_of_def split: if_splits)
    qed
  qed
  show "clone p m = Inr (c, m6) \<Longrightarrow> ops_of m6 p = ops_of m p \<and> ops_of m6 c = ops_of m p"
  proof -
    assume cl: "clone p m = Inr (c, m6)"
    note cs = clone_spec[OF assms st cl]
    from cs(2,4) show ?thesis by (simp add: ops_of_def)
  qed
qed

subsection \<open>Which calls return\<close>

text \<open>
  Every \<^verbatim>\<open>push\<close> that grows the buffer leaves \<open>avail + 8 * capacity\<close> as it was, and
  the capacity before a growth is less than the number of elements afterwards. So
  \<open>24 * n + 64\<close> bytes, counting the buffer the stack has, are enough for a stack that
  never holds more than \<open>n\<close> elements.
\<close>

lemma push_all_succeeds:
  assumes "stack_ok m p"
    and "24 * (size_of m p + length es) + 64 \<le> avail m + PTR_BYTES * capacity_of m p"
    and "16 * (size_of m p + length es) + 64 \<le> PTRDIFF_MAX"
  shows "\<exists>m'. push_all p es m = Inr m'"
  using assms
proof (induction es arbitrary: m)
  case Nil
  then show ?case by simp
next
  case (Cons e es)
  from Cons.prems(1) obtain s where st: "structs m p = Some s" by (auto elim!: stack_okE)
  have le: "size_of m p \<le> capacity_of m p" by (rule observers_abs(6)[OF Cons.prems(1)])
  have "size_of m p < capacity_of m p \<or>
         grown (capacity_of m p) * PTR_BYTES \<le> PTRDIFF_MAX \<and>
         grown (capacity_of m p) * PTR_BYTES \<le> avail m"
    using Cons.prems(2,3) le by (auto simp: grown_def PTR_BYTES_def)
  with push_succeeds[OF Cons.prems(1)] obtain m1 where p1: "push p e m = Inr m1" by blast
  note a = push_abs[OF Cons.prems(1) st p1]
  note d = push_data_eq[OF Cons.prems(1) st p1]
  have c2: "24 * (size_of m1 p + length es) + 64 \<le> avail m1 + PTR_BYTES * capacity_of m1 p"
    using Cons.prems(2) a(4) d(3) by simp
  have c3: "16 * (size_of m1 p + length es) + 64 \<le> PTRDIFF_MAX"
    using Cons.prems(3) a(4) by simp
  from Cons.IH[OF a(1) c2 c3] p1 show ?case by simp
qed

lemma push_all_no_UB:
  assumes "stack_ok m p"
  shows "push_all p es m \<noteq> Inl UndefinedBehaviour"
  using assms
proof (induction es arbitrary: m)
  case Nil
  then show ?case by simp
next
  case (Cons e es)
  from Cons.prems(1) obtain s where st: "structs m p = Some s" by (auto elim!: stack_okE)
  show ?case
  proof (cases "push p e m")
    case (Inl err)
    with push_no_UB[OF Cons.prems, of e] show ?thesis by simp
  next
    case (Inr m1)
    from Cons.IH[OF push_abs(1)[OF Cons.prems st Inr]] Inr show ?thesis by simp
  qed
qed


lemma pop_total:
  assumes "stack_ok m p"
  shows "\<exists>y m'. pop p m = Inr (y, m') \<and> stack_ok m' p \<and> size_of m' p \<le> size_of m p \<and>
           capacity_of m' p = capacity_of m p \<and> avail m' = avail m"
proof -
  from assms obtain s buf where st: "structs m p = Some s" and b: "arrays m (s_data s) = Some buf"
    "length buf = s_capacity s" "s_size s \<le> s_capacity s"
    "s_capacity s * PTR_BYTES \<le> PTRDIFF_MAX" "s_data s \<le> brk m" "s_data s \<noteq> NULL" "p \<noteq> NULL" "p \<le> brk m"
    by (auto elim!: stack_okE)
  show ?thesis
  proof (cases "s_size s = 0")
    case True
    with st b assms show ?thesis by (simp add: pop_def)
  next
    case False
    with st b show ?thesis by (simp add: pop_def stack_ok_def abs_defs)
  qed
qed

lemma mutate_succeeds:
  assumes "stack_ok m p"
    and "24 * (size_of m p + length ms) + 64 \<le> avail m + PTR_BYTES * capacity_of m p"
    and "16 * (size_of m p + length ms) + 64 \<le> PTRDIFF_MAX"
  shows "\<exists>m'. mutate p ms m = Inr m'"
  using assms
proof (induction ms arbitrary: m)
  case Nil
  then show ?case by simp
next
  case (Cons a ms)
  show ?case
  proof (cases a)
    case (Push e)
    from Cons.prems(1) obtain s where st: "structs m p = Some s" by (auto elim!: stack_okE)
    have le: "size_of m p \<le> capacity_of m p" by (rule observers_abs(6)[OF Cons.prems(1)])
    have "size_of m p < capacity_of m p \<or>
           grown (capacity_of m p) * PTR_BYTES \<le> PTRDIFF_MAX \<and>
           grown (capacity_of m p) * PTR_BYTES \<le> avail m"
      using Cons.prems(2,3) le by (auto simp: grown_def PTR_BYTES_def)
    with push_succeeds[OF Cons.prems(1)] obtain m1 where p1: "push p e m = Inr m1" by blast
    note pa = push_abs[OF Cons.prems(1) st p1]
    note d = push_data_eq[OF Cons.prems(1) st p1]
    have c2: "24 * (size_of m1 p + length ms) + 64 \<le> avail m1 + PTR_BYTES * capacity_of m1 p"
      using Cons.prems(2) pa(4) d(3) by simp
    have c3: "16 * (size_of m1 p + length ms) + 64 \<le> PTRDIFF_MAX"
      using Cons.prems(3) pa(4) by simp
    from Cons.IH[OF pa(1) c2 c3] p1 Push show ?thesis by simp
  next
    case Pop
    from pop_total[OF Cons.prems(1)] obtain y m1 where
      po: "pop p m = Inr (y, m1)" and ok1: "stack_ok m1 p" and sz: "size_of m1 p \<le> size_of m p"
      and cp: "capacity_of m1 p = capacity_of m p" and av: "avail m1 = avail m"
      by blast
    have c2: "24 * (size_of m1 p + length ms) + 64 \<le> avail m1 + PTR_BYTES * capacity_of m1 p"
      using Cons.prems(2) sz cp av by simp
    have c3: "16 * (size_of m1 p + length ms) + 64 \<le> PTRDIFF_MAX"
      using Cons.prems(3) sz by simp
    from Cons.IH[OF ok1 c2 c3] po Pop show ?thesis by simp
  qed
qed

lemma mutate_no_UB:
  assumes "stack_ok m p"
  shows "mutate p ms m \<noteq> Inl UndefinedBehaviour"
  using assms
proof (induction ms arbitrary: m)
  case Nil
  then show ?case by simp
next
  case (Cons a ms)
  show ?case
  proof (cases a)
    case (Push e)
    from Cons.prems(1) obtain s where st: "structs m p = Some s" by (auto elim!: stack_okE)
    show ?thesis
    proof (cases "push p e m")
      case (Inl err)
      with push_no_UB[OF Cons.prems, of e] Push show ?thesis by simp
    next
      case (Inr m1)
      from Cons.IH[OF push_abs(1)[OF Cons.prems st Inr]] Inr Push show ?thesis by simp
    qed
  next
    case Pop
    from pop_total[OF Cons.prems(1)] obtain y m1 where
      po: "pop p m = Inr (y, m1)" and ok1: "stack_ok m1 p" by blast
    from Cons.IH[OF ok1] po Pop show ?thesis by simp
  qed
qed

lemma clone_loop_succeeds:
  assumes "separate m p c" and "structs m p = Some s"
    and "24 * (size_of m c + (s_size s - i)) + 64 \<le> avail m + PTR_BYTES * capacity_of m c"
    and "16 * (size_of m c + (s_size s - i)) + 64 \<le> PTRDIFF_MAX"
  shows "\<exists>m'. clone_loop p c i m = Inr m'"
  using assms
proof (induction p c i m rule: clone_loop.induct)
  case (1 stack clone i m)
  from 1(2) have okp: "stack_ok m stack" and okc: "stack_ok m clone"
    by (simp_all add: separate_def)
  from okp 1(3) obtain buf where b: "arrays m (s_data s) = Some buf"
    "length buf = s_capacity s" "s_size s \<le> s_capacity s"
    by (auto elim!: stack_okE)
  show ?case
  proof (cases "i < s_size s")
    case False
    with 1(3) show ?thesis by (subst clone_loop.simps) simp
  next
    case True
    with b have lt: "i < length buf" by simp
    from okc obtain sc where sc: "structs m clone = Some sc" by (auto elim!: stack_okE)
    have le: "size_of m clone \<le> capacity_of m clone" by (rule observers_abs(6)[OF okc])
    have "size_of m clone < capacity_of m clone \<or>
           grown (capacity_of m clone) * PTR_BYTES \<le> PTRDIFF_MAX \<and>
           grown (capacity_of m clone) * PTR_BYTES \<le> avail m"
      using 1(4,5) le True by (auto simp: grown_def PTR_BYTES_def)
    with push_succeeds[OF okc] obtain m1 where pu: "push clone (buf ! i) m = Inr m1" by blast
    note po = push_other[OF 1(2) pu]
    note pa = push_abs[OF okc sc pu]
    note d = push_data_eq[OF okc sc pu]
    have st1: "structs m1 stack = Some s" using po(2) 1(3) by simp
    have c2: "24 * (size_of m1 clone + (s_size s - (i + 1))) + 64
                \<le> avail m1 + PTR_BYTES * capacity_of m1 clone"
      using 1(4) pa(4) d(3) True by simp
    have c3: "16 * (size_of m1 clone + (s_size s - (i + 1))) + 64 \<le> PTRDIFF_MAX"
      using 1(5) pa(4) True by simp
    from 1(1)[OF 1(3) True b(1) lt pu po(1) st1 c2 c3] obtain m' where
      r: "clone_loop stack clone (i + 1) m1 = Inr m'" by blast
    show ?thesis
      using 1(3) True b(1) lt pu r by (subst clone_loop.simps) simp
  qed
qed

lemma clone_loop_no_UB:
  assumes "separate m p c" and "structs m p = Some s"
  shows "clone_loop p c i m \<noteq> Inl UndefinedBehaviour"
  using assms
proof (induction p c i m rule: clone_loop.induct)
  case (1 stack clone i m)
  from 1(2) have okp: "stack_ok m stack" and okc: "stack_ok m clone"
    by (simp_all add: separate_def)
  from okp 1(3) obtain buf where b: "arrays m (s_data s) = Some buf"
    "length buf = s_capacity s" "s_size s \<le> s_capacity s"
    by (auto elim!: stack_okE)
  show ?case
  proof (cases "i < s_size s")
    case False
    with 1(3) show ?thesis by (subst clone_loop.simps) simp
  next
    case True
    with b have lt: "i < length buf" by simp
    show ?thesis
    proof (cases "push clone (buf ! i) m")
      case (Inl err)
      with push_no_UB[OF okc, of "buf ! i"] 1(3) True b(1) lt show ?thesis
        by (subst clone_loop.simps) simp
    next
      case (Inr m1)
      note po = push_other[OF 1(2) Inr]
      have st1: "structs m1 stack = Some s" using po(2) 1(3) by simp
      from 1(1)[OF 1(3) True b(1) lt Inr po(1) st1] 1(3) True b(1) lt Inr show ?thesis
        by (subst clone_loop.simps) simp
    qed
  qed
qed

lemma new_stack_result:
  "new_stack cf ff cmpf m =
     (if STACK_BYTES + STACK_INITIAL_CAPACITY * PTR_BYTES \<le> avail m
      then Inr (Suc (brk m),
                m\<lparr>brk := Suc (Suc (brk m)),
                  avail := avail m - STACK_BYTES - STACK_INITIAL_CAPACITY * PTR_BYTES,
                  arrays := (arrays m)(Suc (Suc (brk m)) \<mapsto>
                     map (junk m (Suc (Suc (brk m)))) [0..<STACK_INITIAL_CAPACITY]),
                  structs := (structs m)(Suc (brk m) \<mapsto>
                     \<lparr>s_data = Suc (Suc (brk m)), s_size = 0,
                      s_capacity = STACK_INITIAL_CAPACITY,
                      s_copy = cf, s_free_func = ff, s_cmp = cmpf\<rparr>)\<rparr>)
      else Inl ExitFailure)"
  by (auto simp: new_stack_def malloc_array_def reserve_def size_mul_def c_consts NULL_def)

lemma clone_succeeds:
  assumes ok: "stack_ok m p"
    and "STACK_BYTES + STACK_INITIAL_CAPACITY * PTR_BYTES + 24 * size_of m p \<le> avail m"
    and "16 * size_of m p + 64 \<le> PTRDIFF_MAX"
  shows "\<exists>c m'. clone p m = Inr (c, m')"
proof -
  from ok obtain s where st: "structs m p = Some s" and n: "p \<noteq> NULL" by (auto elim!: stack_okE)
  from assms(2) have "STACK_BYTES + STACK_INITIAL_CAPACITY * PTR_BYTES \<le> avail m" by simp
  from new_stack_succeeds[OF this] obtain c m1 where
    ns: "new_stack (s_copy s) (s_free_func s) (s_cmp s) m = Inr (c, m1)" by blast
  note no = new_stack_other[OF ok ns]
  note na = new_stack_abs[OF ns]
  have av: "avail m1 = avail m - STACK_BYTES - STACK_INITIAL_CAPACITY * PTR_BYTES"
    unfolding new_stack_spec(2)[OF ns] by simp
  have st1: "structs m1 p = Some s" using no(2) st by simp
  have sz: "s_size s = size_of m p" using st by (simp add: size_of_def)
  have c2: "24 * (size_of m1 c + (s_size s - 0)) + 64 \<le> avail m1 + PTR_BYTES * capacity_of m1 c"
    unfolding na(3,4) av sz using assms(2) by (simp add: c_consts)
  have c3: "16 * (size_of m1 c + (s_size s - 0)) + 64 \<le> PTRDIFF_MAX"
    unfolding na(3) sz using assms(3) by simp
  from clone_loop_succeeds[OF no(1) st1 c2 c3] obtain m' where
    "clone_loop p c 0 m1 = Inr m'" by blast
  with st n ns show ?thesis by (simp add: clone_def)
qed

lemma clone_no_UB:
  assumes ok: "stack_ok m p"
  shows "clone p m \<noteq> Inl UndefinedBehaviour"
proof -
  from ok obtain s where st: "structs m p = Some s" and n: "p \<noteq> NULL" by (auto elim!: stack_okE)
  show ?thesis
  proof (cases "new_stack (s_copy s) (s_free_func s) (s_cmp s) m")
    case (Inl err)
    then have "err = ExitFailure" by (simp add: new_stack_result split: if_splits)
    with Inl st n show ?thesis by (simp add: clone_def)
  next
    case (Inr r)
    obtain c m1 where r: "r = (c, m1)" by (cases r)
    note ns = Inr[unfolded r]
    note no = new_stack_other[OF ok ns]
    have st1: "structs m1 p = Some s" using no(2) st by simp
    from clone_loop_no_UB[OF no(1) st1, of 0] st n ns show ?thesis
      by (auto simp: clone_def split: sum.splits)
  qed
qed

lemma push_unallocated:
  assumes "stack_unallocated m p" and "structs m p = Some s"
  shows "push p x m =
     (if STACK_INITIAL_CAPACITY * PTR_BYTES \<le> avail m
      then Inr (m\<lparr>brk := Suc (brk m),
                  avail := avail m - STACK_INITIAL_CAPACITY * PTR_BYTES,
                  world := snd (s_copy s x (world m)),
                  arrays := (arrays m)(Suc (brk m) \<mapsto>
                     (map (junk m (Suc (brk m))) [0..<STACK_INITIAL_CAPACITY])
                       [0 := fst (s_copy s x (world m))]),
                  structs := (structs m)(p \<mapsto> s\<lparr>s_data := Suc (brk m),
                                                 s_capacity := STACK_INITIAL_CAPACITY,
                                                 s_size := 1\<rparr>)\<rparr>)
      else Inl ExitFailure)"
  using assms
  by (auto simp: stack_unallocated_def push_def grow_def realloc_def malloc_array_def reserve_def
      size_mul_def size_inc_def c_consts NULL_def Let_def split: prod.splits)

lemma push_unallocated_abs:
  assumes "stack_unallocated m p" and "structs m p = Some s" and "push p x m = Inr m'"
  shows "stack_ok m' p" and "capacity_of m' p = STACK_INITIAL_CAPACITY"
    and "elements m' p = [fst (s_copy s x (world m))]" and "data_of m' p \<noteq> NULL"
proof -
  from assms(3) have m': "m' = m\<lparr>brk := Suc (brk m),
                  avail := avail m - STACK_INITIAL_CAPACITY * PTR_BYTES,
                  world := snd (s_copy s x (world m)),
                  arrays := (arrays m)(Suc (brk m) \<mapsto>
                     (map (junk m (Suc (brk m))) [0..<STACK_INITIAL_CAPACITY])
                       [0 := fst (s_copy s x (world m))]),
                  structs := (structs m)(p \<mapsto> s\<lparr>s_data := Suc (brk m),
                                                 s_capacity := STACK_INITIAL_CAPACITY,
                                                 s_size := 1\<rparr>)\<rparr>"
    unfolding push_unallocated[OF assms(1,2)] by (simp split: if_splits)
  from assms(1) have p: "p \<noteq> NULL" "p \<le> brk m" by (simp_all add: stack_unallocated_def)
  show "stack_ok m' p" unfolding m' using p by (simp add: stack_ok_def c_consts NULL_def)
  show "capacity_of m' p = STACK_INITIAL_CAPACITY" unfolding m' by (simp add: abs_defs)
  show "elements m' p = [fst (s_copy s x (world m))]"
    unfolding m' by (simp add: abs_defs c_consts upt_rec)
  show "data_of m' p \<noteq> NULL" unfolding m' by (simp add: data_of_def NULL_def)
qed

subsection \<open>The example memories\<close>

lemmas run_defs = new_stack_def malloc_array_def reserve_def realloc_def grow_def push_def pop_def
  size_mul_def size_inc_def c_consts NULL_def int_copy_def int_at_def int_free_def int_cmp_def
  Let_def

lemma Suc_Suc_0: "Suc (Suc 0) = 2"
  by simp

lemma upt8: "[0..<8] = [0, 1, 2, 3, 4, 5, 6, 7]"
  by (simp add: upt_rec)

lemma mem1_reached: "new_stack int_copy int_free (Some int_cmp) mem0 = Inr (1, mem1)"
  by (simp add: run_defs mem0_def mem1_def ex_stack_def upt8 Suc_Suc_0)

lemma mem2_reached: "push_all 1 [1, 2, 3] mem1 = Inr mem2"
  by (simp add: run_defs mem1_def mem2_def ex_stack_def Suc_Suc_0)

lemma mem1_ok: "stack_ok mem1 1" "elements mem1 1 = []" "structs mem1 1 = Some ex_stack"
  by (simp_all add: stack_ok_def mem1_def ex_stack_def abs_defs c_consts NULL_def)

lemma mem2_ok: "stack_ok mem2 1" "elements mem2 1 = [4, 5, 6]"
  "structs mem2 1 = Some (ex_stack\<lparr>s_size := 3\<rparr>)"
  by (simp_all add: stack_ok_def mem2_def ex_stack_def abs_defs c_consts NULL_def)

lemma int_copy_contract: "copy_contract int_live int_at int_copy"
  by (auto simp: copy_contract_def int_live_def int_copy_def int_at_def nth_append)

lemma mem3_reached: "clone 1 mem2 = Inr (3, mem3)"
  by (simp add: clone_def clone_loop.simps run_defs mem2_def mem3_def ex_stack_def upt8 Suc_Suc_0)

lemma mem_log_ok: "stack_ok mem_log 1" "elements mem_log 1 = [4, 5, 6]"
  "structs mem_log 1 = Some log_stack"
  by (simp_all add: stack_ok_def mem_log_def log_stack_def abs_defs c_consts NULL_def)

lemma upt_8_16: "[8..<16] = [8, 9, 10, 11, 12, 13, 14, 15]"
  by (simp add: upt_rec)

lemma mem8_reached: "push_all 1 [1, 2, 3, 1, 2, 3, 1, 2] mem1 = Inr mem8"
  by (simp add: run_defs mem1_def mem8_def ex_stack_def Suc_Suc_0)

lemma mem8_ok: "stack_ok mem8 1" "stack_ok (mem8\<lparr>in_place := always\<rparr>) 1"
  "size_of mem8 1 = 8" "capacity_of mem8 1 = 8"
  "size_of (mem8\<lparr>in_place := always\<rparr>) 1 = 8" "capacity_of (mem8\<lparr>in_place := always\<rparr>) 1 = 8"
  by (simp_all add: stack_ok_def mem8_def ex_stack_def abs_defs c_consts NULL_def)

lemma mem9_reached: "push_all 1 nine mem1 = Inr mem9"
  by (simp add: nine_def run_defs mem1_def mem9_def ex_stack_def Suc_Suc_0 upt_8_16)

lemma mem9s_reached: "push_all 1 nine (mem1\<lparr>in_place := always\<rparr>) = Inr mem9s"
  by (simp add: nine_def run_defs mem1_def mem9s_def ex_stack_def Suc_Suc_0 upt_8_16 always_def)

lemma mem9_push: "push 1 3 mem8 = Inr mem9"
  by (simp add: run_defs mem8_def mem9_def ex_stack_def Suc_Suc_0 upt_8_16)

lemma mem9s_push: "push 1 3 (mem8\<lparr>in_place := always\<rparr>) = Inr mem9s"
  by (simp add: run_defs mem8_def mem9s_def ex_stack_def Suc_Suc_0 upt_8_16 always_def)

lemma mem9_ok: "stack_ok mem9 1" "elements mem9 1 = [4, 5, 6, 7, 8, 9, 10, 11, 12]"
  "structs mem9 1 = Some (ex_stack\<lparr>s_data := 3, s_size := 9, s_capacity := 16\<rparr>)"
  by (simp_all add: stack_ok_def mem9_def ex_stack_def abs_defs c_consts NULL_def)

lemma mem10_reached: "clone 1 mem9 = Inr (4, mem10)"
  by (simp add: clone_def clone_loop.simps run_defs mem9_def mem10_def ex_stack_def upt8 upt_8_16 Suc_Suc_0)

lemma mem10_ok: "stack_ok mem10 4" "stack_ok mem10 1"
  "structs mem10 4 = Some (ex_stack\<lparr>s_data := 6, s_size := 9, s_capacity := 16\<rparr>)"
  "structs mem10 1 = Some (ex_stack\<lparr>s_data := 3, s_size := 9, s_capacity := 16\<rparr>)"
  "elements mem10 4 = [13, 14, 15, 16, 17, 18, 19, 20, 21]"
  "elements mem10 1 = [4, 5, 6, 7, 8, 9, 10, 11, 12]"
  "size_of mem10 4 = 9" "size_of mem10 1 = 9" "capacity_of mem10 4 = 16" "capacity_of mem10 1 = 16"
  "avail mem10 = 3744"
  by (simp_all add: stack_ok_def mem10_def ex_stack_def abs_defs c_consts NULL_def)

lemma memz_ok: "stack_ok memz 1" "capacity_of memz 1 = 0" "size_of memz 1 = 0"
  by (simp_all add: stack_ok_def memz_def mem1_def ex_stack_def abs_defs c_consts NULL_def)

lemma memu_ok: "stack_unallocated memu 1" "avail memu = 3984"
  by (simp_all add: stack_unallocated_def memu_def mem1_def ex_stack_def NULL_def)

section \<open>The properties of the specification\<close>

text \<open>
  \<^bold>\<open>C1\<close>. \<^verbatim>\<open>new_stack\<close> returns when the allocator has the bytes of a struct and of a
  buffer of 8 slots, and ends the program otherwise. Pushing \<open>e1..en\<close>, in that order,
  onto the new stack never runs into undefined behaviour, however many elements there
  are: every \<^verbatim>\<open>push\<close> returns, also the ones that find the buffer full and have to
  grow it, unless the allocator refuses and \<^verbatim>\<open>grow\<close> ends the program; \<open>24 * n\<close> bytes
  are enough for all of them to return. After that, \<open>n\<close> calls of \<^verbatim>\<open>pop\<close> return the
  copies made by the copy function in reverse order (the copy of \<open>en\<close> first), after
  which \<^verbatim>\<open>size\<close> is 0, \<^verbatim>\<open>is_empty\<close> is true and one more \<^verbatim>\<open>pop\<close>, or a \<^verbatim>\<open>peek\<close>,
  returns \<^verbatim>\<open>NULL\<close>. The copies are the pointers the copy function returned when it ran
  on \<open>e1\<close>, ..., \<open>en\<close> in turn; \<^verbatim>\<open>pop\<close> releases none of them. After \<open>k < n\<close> calls of
  \<^verbatim>\<open>pop\<close>, which return the first \<open>k\<close> of these, \<^verbatim>\<open>size\<close> is \<open>n - k\<close> and \<^verbatim>\<open>peek\<close>
  returns the copy of the element pushed as number \<open>n - k\<close>.
\<close>

theorem pushes_then_pops_lifo:
  "new_stack cf ff cmpf m0 \<noteq> Inl UndefinedBehaviour \<and>
   (STACK_BYTES + STACK_INITIAL_CAPACITY * PTR_BYTES \<le> avail m0 \<longrightarrow>
      (\<exists>p m1. new_stack cf ff cmpf m0 = Inr (p, m1))) \<and>
   (new_stack cf ff cmpf m0 = Inr (p, m1) \<longrightarrow>
      push_all p es m1 \<noteq> Inl UndefinedBehaviour \<and>
      (24 * length es \<le> avail m1 \<and> 16 * length es + 64 \<le> PTRDIFF_MAX \<longrightarrow>
         (\<exists>m2. push_all p es m1 = Inr m2)) \<and>
      (push_all p es m1 = Inr m2 \<longrightarrow>
         (\<exists>m3. pop_n (length es) p m2 = Inr (rev (fst (copy_all cf es (world m0))), m3) \<and>
            size_stack p m3 = Inr 0 \<and> is_empty p m3 = Inr True \<and>
            pop p m3 = Inr (NULL, m3) \<and> peek p m3 = Inr NULL \<and>
            world m3 = snd (copy_all cf es (world m0))) \<and>
         (k < length es \<longrightarrow>
            (\<exists>m3. pop_n k p m2 = Inr (take k (rev (fst (copy_all cf es (world m0)))), m3) \<and>
               size_stack p m3 = Inr (length es - k) \<and> is_empty p m3 = Inr False \<and>
               peek p m3 = Inr (fst (copy_all cf es (world m0)) ! (length es - k - 1))))))"
proof -
  have nub: "new_stack cf ff cmpf m0 \<noteq> Inl UndefinedBehaviour"
    by (simp add: new_stack_result)
  have nret: "STACK_BYTES + STACK_INITIAL_CAPACITY * PTR_BYTES \<le> avail m0 \<longrightarrow>
      (\<exists>p m1. new_stack cf ff cmpf m0 = Inr (p, m1))"
    using new_stack_succeeds[of m0 cf ff cmpf] by blast
  have rest: "push_all p es m1 \<noteq> Inl UndefinedBehaviour \<and>
      (24 * length es \<le> avail m1 \<and> 16 * length es + 64 \<le> PTRDIFF_MAX \<longrightarrow>
         (\<exists>m2. push_all p es m1 = Inr m2)) \<and>
      (push_all p es m1 = Inr m2 \<longrightarrow>
         (\<exists>m3. pop_n (length es) p m2 = Inr (rev (fst (copy_all cf es (world m0))), m3) \<and>
            size_stack p m3 = Inr 0 \<and> is_empty p m3 = Inr True \<and>
            pop p m3 = Inr (NULL, m3) \<and> peek p m3 = Inr NULL \<and>
            world m3 = snd (copy_all cf es (world m0))) \<and>
         (k < length es \<longrightarrow>
            (\<exists>m3. pop_n k p m2 = Inr (take k (rev (fst (copy_all cf es (world m0)))), m3) \<and>
               size_stack p m3 = Inr (length es - k) \<and> is_empty p m3 = Inr False \<and>
               peek p m3 = Inr (fst (copy_all cf es (world m0)) ! (length es - k - 1)))))"
    if ns: "new_stack cf ff cmpf m0 = Inr (p, m1)"
  proof -
    let ?cs = "fst (copy_all cf es (world m0))"
    note n = new_stack_abs[OF ns]
    have pub: "push_all p es m1 \<noteq> Inl UndefinedBehaviour"
      by (rule push_all_no_UB[OF n(1)])
    have pret: "\<exists>m2. push_all p es m1 = Inr m2"
      if "24 * length es \<le> avail m1 \<and> 16 * length es + 64 \<le> PTRDIFF_MAX"
    proof (rule push_all_succeeds[OF n(1)])
      show "24 * (size_of m1 p + length es) + 64 \<le> avail m1 + PTR_BYTES * capacity_of m1 p"
        unfolding n(3,4) using that by (simp add: c_consts)
      show "16 * (size_of m1 p + length es) + 64 \<le> PTRDIFF_MAX"
        unfolding n(3) using that by simp
    qed
    have pops: "(\<exists>m3. pop_n (length es) p m2 = Inr (rev ?cs, m3) \<and>
            size_stack p m3 = Inr 0 \<and> is_empty p m3 = Inr True \<and>
            pop p m3 = Inr (NULL, m3) \<and> peek p m3 = Inr NULL \<and>
            world m3 = snd (copy_all cf es (world m0))) \<and>
         (k < length es \<longrightarrow>
            (\<exists>m3. pop_n k p m2 = Inr (take k (rev ?cs), m3) \<and>
               size_stack p m3 = Inr (length es - k) \<and> is_empty p m3 = Inr False \<and>
               peek p m3 = Inr (?cs ! (length es - k - 1))))"
      if pa: "push_all p es m1 = Inr m2"
    proof -
      from push_all_abs[OF n(1) n(5) pa] n
      have ok2: "stack_ok m2 p" and e2: "elements m2 p = ?cs"
        and w2: "world m2 = snd (copy_all cf es (world m0))"
        by simp_all
      have lc: "length ?cs = length es" by (rule length_copy_all)
      have after: "\<exists>m3. pop_n j p m2 = Inr (take j (rev ?cs), m3) \<and> stack_ok m3 p \<and>
          elements m3 p = take (length es - j) ?cs \<and> world m3 = world m2"
        if j: "j \<le> length es" for j
      proof -
        from j have le: "j \<le> length (elements m2 p)" by (simp add: e2 lc)
        have r: "rev (drop (length es - j) ?cs) = take j (rev ?cs)" by (simp add: take_rev lc)
        from pop_n_abs[OF ok2 le] show ?thesis unfolding e2 lc r by blast
      qed
      have all: "\<exists>m3. pop_n (length es) p m2 = Inr (rev ?cs, m3) \<and>
                size_stack p m3 = Inr 0 \<and> is_empty p m3 = Inr True \<and>
                pop p m3 = Inr (NULL, m3) \<and> peek p m3 = Inr NULL \<and>
                world m3 = snd (copy_all cf es (world m0))"
      proof -
        from after[of "length es"] obtain m3 where
          r: "pop_n (length es) p m2 = Inr (take (length es) (rev ?cs), m3)"
          and ok3: "stack_ok m3 p" and e3: "elements m3 p = []" and w3: "world m3 = world m2"
          by auto
        from observers_abs[OF ok3] e3 have "size_of m3 p = 0" by simp
        with observers_abs[OF ok3] pop_empty[OF ok3 e3] peek_abs[OF ok3] r e3 w2 w3 lc
        show ?thesis by simp
      qed
      have some: "\<exists>m3. pop_n k p m2 = Inr (take k (rev ?cs), m3) \<and>
                   size_stack p m3 = Inr (length es - k) \<and> is_empty p m3 = Inr False \<and>
                   peek p m3 = Inr (?cs ! (length es - k - 1))" if k: "k < length es"
      proof -
        from k after[of k] obtain m3 where
          r: "pop_n k p m2 = Inr (take k (rev ?cs), m3)"
          and ok3: "stack_ok m3 p" and e3: "elements m3 p = take (length es - k) ?cs"
          by auto
        from k lc have pos: "0 < length es - k" "length es - k \<le> length ?cs" by simp_all
        then have ne: "elements m3 p \<noteq> []" unfolding e3 by auto
        have l: "last (elements m3 p) = ?cs ! (length es - k - 1)"
          unfolding e3 using last_take[OF pos] by simp
        from observers_abs(4)[OF ok3] e3 pos have sz: "size_of m3 p = length es - k" by simp
        from observers_abs(1,2)[OF ok3] peek_abs[OF ok3] r ne l sz pos show ?thesis by simp
      qed
      from all some show ?thesis by blast
    qed
    from pub pret pops show ?thesis by blast
  qed
  from nub nret rest show ?thesis by blast
qed

text \<open>
  Nine elements on the example stack, one more than the initial capacity: the ninth
  \<^verbatim>\<open>push\<close> grows the buffer, and the nine copies come back last pushed first.
\<close>

theorem pushes_then_pops_lifo_witness:
  "new_stack int_copy int_free (Some int_cmp) mem0 = Inr (1, mem1) \<and>
   push_all 1 [1, 2, 3, 1, 2, 3, 1, 2, 3] mem1 = Inr mem9 \<and>
   capacity 1 mem1 = Inr 8 \<and> capacity 1 mem9 = Inr 16 \<and>
   (case pop_n 9 1 mem9 of
      Inl e \<Rightarrow> False
    | Inr (xs, m3) \<Rightarrow>
        xs = [12, 11, 10, 9, 8, 7, 6, 5, 4] \<and>
        map (int_at (world m3)) xs =
          [Some 30, Some 20, Some 10, Some 30, Some 20, Some 10, Some 30, Some 20, Some 10] \<and>
        size_stack 1 m3 = Inr 0 \<and> is_empty 1 m3 = Inr True \<and>
        pop 1 m3 = Inr (NULL, m3) \<and> peek 1 m3 = Inr NULL) \<and>
   (case pop_n 2 1 mem9 of
      Inl e \<Rightarrow> False
    | Inr (xs, m3) \<Rightarrow>
        xs = [12, 11] \<and> size_stack 1 m3 = Inr 7 \<and> is_empty 1 m3 = Inr False \<and>
        peek 1 m3 = Inr 10)"
proof -
  have c: "copy_all int_copy nine (world mem0) =
      ([4, 5, 6, 7, 8, 9, 10, 11, 12],
       [Some 10, Some 20, Some 30, Some 10, Some 20, Some 30,
        Some 10, Some 20, Some 30, Some 10, Some 20, Some 30])"
    by (simp add: nine_def int_copy_def int_at_def mem0_def)
  have l: "length nine = 9" by (simp add: nine_def)
  have av: "24 * length nine \<le> avail mem1 \<and> 16 * length nine + 64 \<le> PTRDIFF_MAX"
    by (simp add: nine_def mem1_def c_consts)
  note t = pushes_then_pops_lifo[of int_copy int_free "Some int_cmp" mem0 1 mem1 nine mem9 2,
      THEN conjunct2, THEN conjunct2, rule_format, OF mem1_reached]
  from t av have "\<exists>m2. push_all 1 nine mem1 = Inr m2" by blast
  note u = t[THEN conjunct2, THEN conjunct2, rule_format, OF mem9_reached, unfolded l c]
  from u obtain m3 where
    r: "pop_n 9 1 mem9 = Inr ([12, 11, 10, 9, 8, 7, 6, 5, 4], m3)"
      "size_stack 1 m3 = Inr 0" "is_empty 1 m3 = Inr True" "pop 1 m3 = Inr (NULL, m3)"
      "peek 1 m3 = Inr NULL"
      "world m3 = [Some 10, Some 20, Some 30, Some 10, Some 20, Some 30,
        Some 10, Some 20, Some 30, Some 10, Some 20, Some 30]"
    by (auto simp del: pop_n.simps)
  from u obtain mk where
    k: "pop_n 2 1 mem9 = Inr ([12, 11], mk)" "size_stack 1 mk = Inr 7"
      "is_empty 1 mk = Inr False" "peek 1 mk = Inr 10"
    by (auto simp del: pop_n.simps)
  have cp: "capacity 1 mem1 = Inr 8" "capacity 1 mem9 = Inr 16"
    by (simp_all add: capacity_def mem1_def mem9_def ex_stack_def NULL_def)
  show ?thesis
    using mem1_reached mem9_reached[unfolded nine_def] r k cp
    by (simp add: int_at_def del: push_all.simps pop_n.simps)
qed

text \<open>
  \<^bold>\<open>C2\<close>. A \<^verbatim>\<open>push\<close> on a stack never runs into undefined behaviour. It returns when
  the stack has room, and on a full stack when the allocator can serve the request for
  the larger buffer; otherwise \<^verbatim>\<open>grow\<close> ends the program. A \<^verbatim>\<open>push\<close> that returns has
  changed the capacity, and the length of the buffer, exactly when \<^verbatim>\<open>size\<close> was equal
  to \<^verbatim>\<open>capacity\<close>; the new capacity is then twice the old one, and 8 when the old one
  was 0; the elements that were in the stack are at the indices where they were. The
  \<^verbatim>\<open>data\<close> pointer changes only in such a \<^verbatim>\<open>push\<close>, and need not change then:
  \<^verbatim>\<open>realloc\<close> may resize the buffer where it is. \<^verbatim>\<open>pop\<close>, \<^verbatim>\<open>clear\<close>, \<^verbatim>\<open>reverse\<close>,
  \<^verbatim>\<open>to_array\<close> and \<^verbatim>\<open>clone\<close> leave the capacity as it is (\<^verbatim>\<open>peek\<close>, \<^verbatim>\<open>is_empty\<close>,
  \<^verbatim>\<open>size\<close>, \<^verbatim>\<open>capacity\<close> and \<^verbatim>\<open>contains\<close> write nothing), so no operation makes it
  smaller. Pushing 9 elements onto a new stack returns when \<open>24 * 9\<close> bytes are left
  and gives a stack that holds the 9 copies in order, with capacity 16. A \<^verbatim>\<open>push\<close> on
  a struct that has no buffer (\<^verbatim>\<open>data\<close> is \<^verbatim>\<open>NULL\<close>, capacity 0) allocates a buffer of 8
  slots and stores the copy there, or ends the program when the allocator does not
  have the 64 bytes.
\<close>

theorem growth_policy:
  assumes "stack_ok m p"
  shows "push p x m \<noteq> Inl UndefinedBehaviour \<and>
         (size_of m p < capacity_of m p \<or>
          grown (capacity_of m p) * PTR_BYTES \<le> PTRDIFF_MAX \<and>
          grown (capacity_of m p) * PTR_BYTES \<le> avail m \<longrightarrow>
            (\<exists>m1. push p x m = Inr m1)) \<and>
         (push p x m = Inr m1 \<longrightarrow>
            stack_ok m1 p \<and>
            (capacity_of m1 p \<noteq> capacity_of m p \<longleftrightarrow> size_of m p = capacity_of m p) \<and>
            (length (buffer m1 p) \<noteq> length (buffer m p) \<longleftrightarrow> size_of m p = capacity_of m p) \<and>
            (data_of m1 p \<noteq> data_of m p \<longrightarrow> size_of m p = capacity_of m p) \<and>
            (size_of m p = capacity_of m p \<longrightarrow>
               capacity_of m1 p = (if capacity_of m p = 0 then 8 else 2 * capacity_of m p)) \<and>
            take (size_of m p) (buffer m1 p) = take (size_of m p) (buffer m p) \<and>
            capacity_of m p \<le> capacity_of m1 p) \<and>
         (pop p m = Inr (y, m2) \<longrightarrow> capacity_of m2 p = capacity_of m p) \<and>
         (clear p m = Inr m3 \<longrightarrow> capacity_of m3 p = capacity_of m p) \<and>
         (reverse p m = Inr m4 \<longrightarrow> capacity_of m4 p = capacity_of m p) \<and>
         (to_array p out m = Inr (a, m5) \<longrightarrow> capacity_of m5 p = capacity_of m p) \<and>
         (clone p m = Inr (c, m6) \<longrightarrow> capacity_of m6 p = capacity_of m p) \<and>
         (new_stack cf ff cmpf m0 = Inr (q, n1) \<longrightarrow> length es = STACK_INITIAL_CAPACITY + 1 \<longrightarrow>
            push_all q es n1 \<noteq> Inl UndefinedBehaviour \<and>
            (24 * length es \<le> avail n1 \<longrightarrow> (\<exists>n2. push_all q es n1 = Inr n2)) \<and>
            (push_all q es n1 = Inr n2 \<longrightarrow>
               elements n2 q = fst (copy_all cf es (world m0)) \<and>
               capacity_of n2 q = 2 * STACK_INITIAL_CAPACITY)) \<and>
         (stack_unallocated mu u \<longrightarrow>
            (if STACK_INITIAL_CAPACITY * PTR_BYTES \<le> avail mu
             then \<exists>m7. push u x mu = Inr m7 \<and> stack_ok m7 u \<and>
                    capacity_of m7 u = STACK_INITIAL_CAPACITY \<and> size_of m7 u = 1 \<and>
                    data_of m7 u \<noteq> NULL
             else push u x mu = Inl ExitFailure))"
proof -
  have nub: "push p x m \<noteq> Inl UndefinedBehaviour" by (rule push_no_UB[OF assms])
  have ret: "size_of m p < capacity_of m p \<or>
          grown (capacity_of m p) * PTR_BYTES \<le> PTRDIFF_MAX \<and>
          grown (capacity_of m p) * PTR_BYTES \<le> avail m \<longrightarrow>
            (\<exists>m1. push p x m = Inr m1)"
    using push_succeeds[OF assms] by blast
  have pu: "stack_ok m1 p \<and>
            (capacity_of m1 p \<noteq> capacity_of m p \<longleftrightarrow> size_of m p = capacity_of m p) \<and>
            (length (buffer m1 p) \<noteq> length (buffer m p) \<longleftrightarrow> size_of m p = capacity_of m p) \<and>
            (data_of m1 p \<noteq> data_of m p \<longrightarrow> size_of m p = capacity_of m p) \<and>
            (size_of m p = capacity_of m p \<longrightarrow>
               capacity_of m1 p = (if capacity_of m p = 0 then 8 else 2 * capacity_of m p)) \<and>
            take (size_of m p) (buffer m1 p) = take (size_of m p) (buffer m p) \<and>
            capacity_of m p \<le> capacity_of m1 p"
    if p1: "push p x m = Inr m1"
  proof -
    from assms obtain s where st: "structs m p = Some s" by (auto elim!: stack_okE)
    note a = push_abs[OF assms st p1]
    note d = push_data_eq[OF assms st p1]
    have sc: "size_of m p = s_size s" "capacity_of m p = s_capacity s" "data_of m p = s_data s"
      using st by (simp_all add: abs_defs data_of_def)
    have g: "grown (capacity_of m p) \<noteq> capacity_of m p" "capacity_of m p \<le> grown (capacity_of m p)"
      "grown (capacity_of m p) = (if capacity_of m p = 0 then 8 else 2 * capacity_of m p)"
      by (simp_all add: grown_def)
    have "take (size_of m p) (elements m1 p) = elements m p"
      unfolding a(2) using observers_abs(4)[OF assms] by simp
    then have t: "take (size_of m p) (buffer m1 p) = take (size_of m p) (buffer m p)"
      unfolding elements_def a(4) by (simp add: min_def)
    have l: "length (buffer m1 p) = capacity_of m1 p" "length (buffer m p) = capacity_of m p"
      using observers_abs(5)[OF a(1)] observers_abs(5)[OF assms] by simp_all
    have dd: "data_of m1 p \<noteq> data_of m p \<longrightarrow> size_of m p = capacity_of m p"
      unfolding d(1) sc by simp
    from a(1,5) dd g t show ?thesis unfolding l by auto
  qed
  have nine: "push_all q es n1 \<noteq> Inl UndefinedBehaviour \<and>
            (24 * length es \<le> avail n1 \<longrightarrow> (\<exists>n2. push_all q es n1 = Inr n2)) \<and>
            (push_all q es n1 = Inr n2 \<longrightarrow>
               elements n2 q = fst (copy_all cf es (world m0)) \<and>
               capacity_of n2 q = 2 * STACK_INITIAL_CAPACITY)"
    if n: "new_stack cf ff cmpf m0 = Inr (q, n1)" and l: "length es = STACK_INITIAL_CAPACITY + 1"
  proof -
    note na = new_stack_abs[OF n]
    have nu: "push_all q es n1 \<noteq> Inl UndefinedBehaviour" by (rule push_all_no_UB[OF na(1)])
    have rt: "\<exists>n2. push_all q es n1 = Inr n2" if av: "24 * length es \<le> avail n1"
    proof (rule push_all_succeeds[OF na(1)])
      show "24 * (size_of n1 q + length es) + 64 \<le> avail n1 + PTR_BYTES * capacity_of n1 q"
        unfolding na(3,4) using av by (simp add: c_consts)
      show "16 * (size_of n1 q + length es) + 64 \<le> PTRDIFF_MAX"
        unfolding na(3) l by (simp add: c_consts)
    qed
    have res: "elements n2 q = fst (copy_all cf es (world m0)) \<and>
               capacity_of n2 q = 2 * STACK_INITIAL_CAPACITY"
      if pa: "push_all q es n1 = Inr n2"
    proof -
      from push_all_abs[OF na(1,5) pa] na(2,6)
      have e: "elements n2 q = fst (copy_all cf es (world m0))" by simp
      from l have ne: "es \<noteq> []" by auto
      then have sp: "es = butlast es @ [last es]" by simp
      from pa obtain n8 where p8: "push_all q (butlast es) n1 = Inr n8"
        and p9: "push q (last es) n8 = Inr n2"
        by (subst (asm) sp, unfold push_all_append) (auto split: sum.splits)
      from l have l8: "size_of n1 q + length (butlast es) \<le> capacity_of n1 q"
        unfolding na(3,4) by simp
      from push_all_room_abs[OF na(1) l8 p8] na(3,4) l
      have k: "stack_ok n8 q" "capacity_of n8 q = STACK_INITIAL_CAPACITY"
        "size_of n8 q = STACK_INITIAL_CAPACITY" by simp_all
      from k(1) obtain s8 where s8: "structs n8 q = Some s8" by (auto elim!: stack_okE)
      from push_abs(5)[OF k(1) s8 p9] k(2,3)
      have "capacity_of n2 q = 2 * STACK_INITIAL_CAPACITY"
        by (simp add: grown_def STACK_INITIAL_CAPACITY_def)
      with e show ?thesis by simp
    qed
    from nu rt res show ?thesis by blast
  qed
  have un: "if STACK_INITIAL_CAPACITY * PTR_BYTES \<le> avail mu
             then \<exists>m7. push u x mu = Inr m7 \<and> stack_ok m7 u \<and>
                    capacity_of m7 u = STACK_INITIAL_CAPACITY \<and> size_of m7 u = 1 \<and>
                    data_of m7 u \<noteq> NULL
             else push u x mu = Inl ExitFailure"
    if su: "stack_unallocated mu u"
  proof (cases "STACK_INITIAL_CAPACITY * PTR_BYTES \<le> avail mu")
    case False
    from su obtain s where st: "structs mu u = Some s"
      by (auto simp: stack_unallocated_def split: option.splits)
    from push_unallocated[OF su st, of x] False show ?thesis by simp
  next
    case True
    from su obtain s where st: "structs mu u = Some s"
      by (auto simp: stack_unallocated_def split: option.splits)
    from push_unallocated[OF su st, of x] True obtain m7 where p7: "push u x mu = Inr m7"
      by simp
    note ua = push_unallocated_abs[OF su st p7]
    from observers_abs(4)[OF ua(1)] ua(3) have "size_of m7 u = 1" by simp
    with p7 ua True show ?thesis by auto
  qed
  from nub ret pu nine un pop_keeps(2)[OF assms] clear_keeps(2)[OF assms]
    reverse_keeps(2)[OF assms] to_array_keeps(2)[OF assms] clone_keeps(2)[OF assms]
  show ?thesis by blast
qed

text \<open>
  A \<^verbatim>\<open>push\<close> with room (\<open>mem2\<close>), the \<^verbatim>\<open>push\<close> on the full stack \<open>mem8\<close> with a
  \<^verbatim>\<open>realloc\<close> that moves the buffer and with one that does not, a \<^verbatim>\<open>push\<close> on a stack
  of capacity 0 with an empty buffer (\<open>memz\<close>) and with no buffer (\<open>memu\<close>), the
  operations that keep the capacity, and nine elements on a new stack.
\<close>

theorem growth_policy_witness:
  "stack_ok mem2 1 \<and> size_of mem2 1 = 3 \<and> capacity_of mem2 1 = 8 \<and>
   (case push 1 1 mem2 of
      Inl e \<Rightarrow> False
    | Inr m1 \<Rightarrow> capacity_of m1 1 = 8 \<and> data_of m1 1 = data_of mem2 1 \<and>
               take 3 (buffer m1 1) = [4, 5, 6]) \<and>
   stack_ok mem8 1 \<and> size_of mem8 1 = 8 \<and> capacity_of mem8 1 = 8 \<and>
   push 1 3 mem8 = Inr mem9 \<and> capacity_of mem9 1 = 16 \<and> length (buffer mem9 1) = 16 \<and>
   take 8 (buffer mem9 1) = [4, 5, 6, 7, 8, 9, 10, 11] \<and> data_of mem9 1 \<noteq> data_of mem8 1 \<and>
   stack_ok (mem8\<lparr>in_place := always\<rparr>) 1 \<and>
   push 1 3 (mem8\<lparr>in_place := always\<rparr>) = Inr mem9s \<and> capacity_of mem9s 1 = 16 \<and>
   length (buffer mem9s 1) = 16 \<and>
   take 8 (buffer mem9s 1) = [4, 5, 6, 7, 8, 9, 10, 11] \<and> data_of mem9s 1 = data_of mem8 1 \<and>
   stack_ok memz 1 \<and> size_of memz 1 = 0 \<and> capacity_of memz 1 = 0 \<and>
   (case push 1 1 memz of
      Inl e \<Rightarrow> False
    | Inr m1 \<Rightarrow> capacity_of m1 1 = 8 \<and> length (buffer m1 1) = 8) \<and>
   stack_unallocated memu 1 \<and>
   (case push 1 1 memu of
      Inl e \<Rightarrow> False
    | Inr m1 \<Rightarrow> stack_ok m1 1 \<and> capacity_of m1 1 = 8 \<and> size_of m1 1 = 1 \<and>
               data_of m1 1 \<noteq> NULL) \<and>
   (case pop 1 mem2 of Inl e \<Rightarrow> False | Inr (y, m2) \<Rightarrow> capacity_of m2 1 = 8) \<and>
   (case clear 1 mem2 of Inl e \<Rightarrow> False | Inr m3 \<Rightarrow> capacity_of m3 1 = 8) \<and>
   (case reverse 1 mem2 of Inl e \<Rightarrow> False | Inr m4 \<Rightarrow> capacity_of m4 1 = 8) \<and>
   (case to_array 1 NULL mem2 of Inl e \<Rightarrow> False | Inr (a, m5) \<Rightarrow> capacity_of m5 1 = 8) \<and>
   (case clone 1 mem2 of Inl e \<Rightarrow> False | Inr (c, m6) \<Rightarrow> capacity_of m6 1 = 8) \<and>
   new_stack int_copy int_free (Some int_cmp) mem0 = Inr (1, mem1) \<and>
   push_all 1 [1, 2, 3, 1, 2, 3, 1, 2, 3] mem1 = Inr mem9 \<and>
   elements mem9 1 = [4, 5, 6, 7, 8, 9, 10, 11, 12]"
proof -
  have cap: "capacity_of mem2 1 = 8" "size_of mem2 1 = 3"
    by (simp_all add: abs_defs mem2_def ex_stack_def)
  note g = growth_policy[OF mem2_ok(1)]
  from g[where x = 1, THEN conjunct2, THEN conjunct1] cap
  obtain m1 where p1: "push 1 1 mem2 = Inr m1" by auto
  note t1 = g[THEN conjunct2, THEN conjunct2, THEN conjunct1, rule_format, OF p1]
  from t1 cap have f1: "capacity_of m1 1 = 8 \<and> data_of m1 1 = data_of mem2 1 \<and>
      take 3 (buffer m1 1) = take 3 (buffer mem2 1)" by auto
  have b2: "take 3 (buffer mem2 1) = [4, 5, 6]"
    using mem2_ok(2) cap(2) by (simp add: elements_def)
  note t8 = growth_policy[OF mem8_ok(1), THEN conjunct2, THEN conjunct2, THEN conjunct1,
      rule_format, OF mem9_push]
  from t8 mem8_ok(3,4) have f8: "capacity_of mem9 1 = 16"
    "take 8 (buffer mem9 1) = take 8 (buffer mem8 1)" "stack_ok mem9 1"
    by simp_all
  note t8s = growth_policy[OF mem8_ok(2), THEN conjunct2, THEN conjunct2, THEN conjunct1,
      rule_format, OF mem9s_push]
  from t8s mem8_ok(5,6) have f8s: "capacity_of mem9s 1 = 16"
    "take 8 (buffer mem9s 1) = take 8 (buffer (mem8\<lparr>in_place := always\<rparr>) 1)"
    "stack_ok mem9s 1"
    by simp_all
  have b8: "take 8 (buffer mem8 1) = [4, 5, 6, 7, 8, 9, 10, 11]"
    "take 8 (buffer (mem8\<lparr>in_place := always\<rparr>) 1) = [4, 5, 6, 7, 8, 9, 10, 11]"
    by (simp_all add: abs_defs mem8_def ex_stack_def)
  have d9: "data_of mem9 1 \<noteq> data_of mem8 1" "data_of mem9s 1 = data_of mem8 1"
    by (simp_all add: data_of_def mem8_def mem9_def mem9s_def ex_stack_def)
  have l9: "length (buffer mem9 1) = 16" "length (buffer mem9s 1) = 16"
    using observers_abs(5)[OF f8(3)] observers_abs(5)[OF f8s(3)] f8(1) f8s(1) by simp_all
  have gz: "grown 0 * PTR_BYTES \<le> PTRDIFF_MAX \<and> grown 0 * PTR_BYTES \<le> avail memz"
    by (simp add: grown_def c_consts memz_def mem1_def)
  from growth_policy[OF memz_ok(1), where x = 1, THEN conjunct2, THEN conjunct1] memz_ok(2,3) gz
  obtain mz where pz: "push 1 1 memz = Inr mz" by auto
  note tz1 = growth_policy[OF memz_ok(1), THEN conjunct2, THEN conjunct2, THEN conjunct1,
      rule_format, OF pz]
  from tz1 memz_ok(2,3) have fz: "capacity_of mz 1 = 8" "stack_ok mz 1" by simp_all
  from observers_abs(5)[OF fz(2)] fz(1) have lz: "length (buffer mz 1) = 8" by simp
  note tu = g[where x = 1, THEN conjunct2, THEN conjunct2, THEN conjunct2, THEN conjunct2,
      THEN conjunct2, THEN conjunct2, THEN conjunct2, THEN conjunct2, THEN conjunct2,
      rule_format, OF memu_ok(1)]
  from tu memu_ok(2) obtain m7 where p7: "push 1 1 memu = Inr m7" and f7: "stack_ok m7 1"
    "capacity_of m7 1 = 8" "size_of m7 1 = 1" "data_of m7 1 \<noteq> NULL"
    by (auto simp: c_consts)
  obtain y m2 where po: "pop 1 mem2 = Inr (y, m2)"
    using pop_abs[OF mem2_ok(1)] mem2_ok(2) by auto
  obtain m3 where cl: "clear 1 mem2 = Inr m3"
    using clear_spec[OF mem2_ok(1,3)] by simp
  obtain m4 where rv: "reverse 1 mem2 = Inr m4"
    using reverse_spec[OF mem2_ok(1,3)] by simp
  have nz: "s_size (ex_stack\<lparr>s_size := 3\<rparr>) \<noteq> 0" by simp
  obtain a m5 where ta: "to_array 1 NULL mem2 = Inr (a, m5)"
    unfolding to_array_spec[OF mem2_ok(1,3) nz] by (simp add: ex_stack_def mem2_def c_consts)
  note k4 = g[THEN conjunct2, THEN conjunct2, THEN conjunct2, THEN conjunct1, rule_format, OF po]
  note k5 = g[THEN conjunct2, THEN conjunct2, THEN conjunct2, THEN conjunct2, THEN conjunct1,
      rule_format, OF cl]
  note k6 = g[THEN conjunct2, THEN conjunct2, THEN conjunct2, THEN conjunct2, THEN conjunct2,
      THEN conjunct1, rule_format, OF rv]
  note k7 = g[THEN conjunct2, THEN conjunct2, THEN conjunct2, THEN conjunct2, THEN conjunct2,
      THEN conjunct2, THEN conjunct1, rule_format, OF ta]
  note k8 = g[THEN conjunct2, THEN conjunct2, THEN conjunct2, THEN conjunct2, THEN conjunct2,
      THEN conjunct2, THEN conjunct2, THEN conjunct1, rule_format, OF mem3_reached]
  from k4 k5 k6 k7 k8 cap
  have f2: "capacity_of m2 1 = 8" "capacity_of m3 1 = 8" "capacity_of m4 1 = 8"
    "capacity_of m5 1 = 8" "capacity_of mem3 1 = 8" by simp_all
  have c9: "fst (copy_all int_copy nine (world mem0)) = [4, 5, 6, 7, 8, 9, 10, 11, 12]"
    by (simp add: nine_def int_copy_def int_at_def mem0_def)
  have l: "length nine = STACK_INITIAL_CAPACITY + 1" by (simp add: nine_def c_consts)
  note k9 = g[THEN conjunct2, THEN conjunct2, THEN conjunct2, THEN conjunct2, THEN conjunct2,
      THEN conjunct2, THEN conjunct2, THEN conjunct2, THEN conjunct1, rule_format,
      OF mem1_reached l]
  from k9[THEN conjunct2, THEN conjunct2, rule_format, OF mem9_reached]
  have f9: "elements mem9 1 = [4, 5, 6, 7, 8, 9, 10, 11, 12]"
    unfolding c9 by simp
  show ?thesis
    using mem2_ok(1) cap p1 f1 b2 mem8_ok mem9_push mem9s_push f8 f8s b8 d9 l9 memz_ok pz fz lz
      memu_ok(1) p7 f7 po cl rv ta mem3_reached f2 mem1_reached mem9_reached[unfolded nine_def] f9
    by (simp del: push_all.simps)
qed

text \<open>
  \<^bold>\<open>C3\<close>. \<^verbatim>\<open>clone\<close> of a stack never runs into undefined behaviour; it returns when
  the allocator has the bytes of a new stack and \<open>24 * size\<close> more, which covers every
  growth of the clone's buffer, and otherwise ends the program. When \<^verbatim>\<open>clone\<close> returns,
  the clone is a new stack (another struct, another buffer) with the copy, release and
  compare functions of the original; its elements are the copies the copy function made
  of the original's elements, bottom to top, and the original's struct and buffer are
  as before. A sequence of \<^verbatim>\<open>push\<close> and \<^verbatim>\<open>pop\<close> calls on the clone, or on the original,
  never runs into undefined behaviour and returns when the allocator has the bytes
  for the growths; none on the clone changes the struct or the buffer of the original,
  and none on the original changes those of the clone. When the copy function keeps
  its contract, the elements of the clone have the values of the original's elements,
  place by place, no element belongs to both stacks, and \<^verbatim>\<open>to_array\<close> of the clone and
  \<^verbatim>\<open>to_array\<close> of the original give arrays of the same length with the same values,
  place by place (both \<^verbatim>\<open>NULL\<close> when the stack is empty).
\<close>

theorem clone_independent:
  assumes "stack_ok m p" and "structs m p = Some s"
  shows "clone p m \<noteq> Inl UndefinedBehaviour \<and>
         (STACK_BYTES + STACK_INITIAL_CAPACITY * PTR_BYTES + 24 * size_of m p \<le> avail m \<and>
          16 * size_of m p + 64 \<le> PTRDIFF_MAX \<longrightarrow> (\<exists>c m'. clone p m = Inr (c, m'))) \<and>
         (clone p m = Inr (c, m') \<longrightarrow>
            c \<noteq> NULL \<and> c \<noteq> p \<and> stack_ok m' c \<and> stack_ok m' p \<and>
            ops_of m' c = ops_of m p \<and>
            elements m' c = fst (copy_all (s_copy s) (elements m p) (world m)) \<and>
            world m' = snd (copy_all (s_copy s) (elements m p) (world m)) \<and>
            structs m' p = structs m p \<and> buffer m' p = buffer m p \<and>
            data_of m' c \<noteq> data_of m' p \<and>
            mutate c ms1 m' \<noteq> Inl UndefinedBehaviour \<and>
            (24 * (size_of m' c + length ms1) + 64 \<le> avail m' + PTR_BYTES * capacity_of m' c \<and>
             16 * (size_of m' c + length ms1) + 64 \<le> PTRDIFF_MAX \<longrightarrow>
               (\<exists>m1. mutate c ms1 m' = Inr m1)) \<and>
            (mutate c ms1 m' = Inr m1 \<longrightarrow>
               structs m1 p = structs m' p \<and> buffer m1 p = buffer m' p) \<and>
            mutate p ms2 m' \<noteq> Inl UndefinedBehaviour \<and>
            (24 * (size_of m' p + length ms2) + 64 \<le> avail m' + PTR_BYTES * capacity_of m' p \<and>
             16 * (size_of m' p + length ms2) + 64 \<le> PTRDIFF_MAX \<longrightarrow>
               (\<exists>m2. mutate p ms2 m' = Inr m2)) \<and>
            (mutate p ms2 m' = Inr m2 \<longrightarrow>
               structs m2 c = structs m' c \<and> buffer m2 c = buffer m' c) \<and>
            (copy_contract live val (s_copy s) \<longrightarrow> set (elements m p) \<subseteq> live (world m) \<longrightarrow>
               map (val (world m')) (elements m' c) = map (val (world m')) (elements m' p) \<and>
               set (elements m' c) \<inter> set (elements m' p) = {} \<and>
               (to_array c o1 m' = Inr (a1, n1) \<longrightarrow> to_array p o2 m' = Inr (a2, n2) \<longrightarrow>
                  (elements m p = [] \<longrightarrow> a1 = NULL \<and> a2 = NULL) \<and>
                  (elements m p \<noteq> [] \<longrightarrow>
                     (\<exists>xs ys. arrays n1 a1 = Some xs \<and> arrays n2 a2 = Some ys \<and>
                        length xs = size_of m p \<and> length ys = size_of m p \<and>
                        map (val (world n1)) xs = map (val (world n2)) ys)))))"
proof -
  have nub: "clone p m \<noteq> Inl UndefinedBehaviour" by (rule clone_no_UB[OF assms(1)])
  have ret: "STACK_BYTES + STACK_INITIAL_CAPACITY * PTR_BYTES + 24 * size_of m p \<le> avail m \<and>
          16 * size_of m p + 64 \<le> PTRDIFF_MAX \<longrightarrow> (\<exists>c m'. clone p m = Inr (c, m'))"
    using clone_succeeds[OF assms(1)] by blast
  have rest: "c \<noteq> NULL \<and> c \<noteq> p \<and> stack_ok m' c \<and> stack_ok m' p \<and>
            ops_of m' c = ops_of m p \<and>
            elements m' c = fst (copy_all (s_copy s) (elements m p) (world m)) \<and>
            world m' = snd (copy_all (s_copy s) (elements m p) (world m)) \<and>
            structs m' p = structs m p \<and> buffer m' p = buffer m p \<and>
            data_of m' c \<noteq> data_of m' p \<and>
            mutate c ms1 m' \<noteq> Inl UndefinedBehaviour \<and>
            (24 * (size_of m' c + length ms1) + 64 \<le> avail m' + PTR_BYTES * capacity_of m' c \<and>
             16 * (size_of m' c + length ms1) + 64 \<le> PTRDIFF_MAX \<longrightarrow>
               (\<exists>m1. mutate c ms1 m' = Inr m1)) \<and>
            (mutate c ms1 m' = Inr m1 \<longrightarrow>
               structs m1 p = structs m' p \<and> buffer m1 p = buffer m' p) \<and>
            mutate p ms2 m' \<noteq> Inl UndefinedBehaviour \<and>
            (24 * (size_of m' p + length ms2) + 64 \<le> avail m' + PTR_BYTES * capacity_of m' p \<and>
             16 * (size_of m' p + length ms2) + 64 \<le> PTRDIFF_MAX \<longrightarrow>
               (\<exists>m2. mutate p ms2 m' = Inr m2)) \<and>
            (mutate p ms2 m' = Inr m2 \<longrightarrow>
               structs m2 c = structs m' c \<and> buffer m2 c = buffer m' c) \<and>
            (copy_contract live val (s_copy s) \<longrightarrow> set (elements m p) \<subseteq> live (world m) \<longrightarrow>
               map (val (world m')) (elements m' c) = map (val (world m')) (elements m' p) \<and>
               set (elements m' c) \<inter> set (elements m' p) = {} \<and>
               (to_array c o1 m' = Inr (a1, n1) \<longrightarrow> to_array p o2 m' = Inr (a2, n2) \<longrightarrow>
                  (elements m p = [] \<longrightarrow> a1 = NULL \<and> a2 = NULL) \<and>
                  (elements m p \<noteq> [] \<longrightarrow>
                     (\<exists>xs ys. arrays n1 a1 = Some xs \<and> arrays n2 a2 = Some ys \<and>
                        length xs = size_of m p \<and> length ys = size_of m p \<and>
                        map (val (world n1)) xs = map (val (world n2)) ys))))"
    if cl: "clone p m = Inr (c, m')"
  proof -
    note cs = clone_spec[OF assms cl]
    from cs(1) have okp: "stack_ok m' p" and okc: "stack_ok m' c" and ne: "c \<noteq> p"
      and dn: "data_of m' c \<noteq> data_of m' p"
      by (auto simp: separate_def)
    from okc have nn: "c \<noteq> NULL" by (auto elim!: stack_okE)
    let ?es = "elements m p" and ?w = "world m"
    let ?cs = "fst (copy_all (s_copy s) ?es ?w)" and ?w' = "snd (copy_all (s_copy s) ?es ?w)"
    have ep: "elements m' p = ?es"
      using cs(2,3) by (simp add: elements_def size_of_def)
    have u1: "mutate c ms1 m' \<noteq> Inl UndefinedBehaviour" by (rule mutate_no_UB[OF okc])
    have u2: "mutate p ms2 m' \<noteq> Inl UndefinedBehaviour" by (rule mutate_no_UB[OF okp])
    have r1: "24 * (size_of m' c + length ms1) + 64 \<le> avail m' + PTR_BYTES * capacity_of m' c \<and>
             16 * (size_of m' c + length ms1) + 64 \<le> PTRDIFF_MAX \<longrightarrow>
               (\<exists>m1. mutate c ms1 m' = Inr m1)"
      using mutate_succeeds[OF okc] by blast
    have r2: "24 * (size_of m' p + length ms2) + 64 \<le> avail m' + PTR_BYTES * capacity_of m' p \<and>
             16 * (size_of m' p + length ms2) + 64 \<le> PTRDIFF_MAX \<longrightarrow>
               (\<exists>m2. mutate p ms2 m' = Inr m2)"
      using mutate_succeeds[OF okp] by blast
    have m1: "mutate c ms1 m' = Inr m1 \<longrightarrow>
              structs m1 p = structs m' p \<and> buffer m1 p = buffer m' p"
      using mutate_other[OF cs(1)] by blast
    have m2: "mutate p ms2 m' = Inr m2 \<longrightarrow>
              structs m2 c = structs m' c \<and> buffer m2 c = buffer m' c"
      using mutate_other[OF separate_sym[OF cs(1)]] by blast
    have ct: "map (val (world m')) (elements m' c) = map (val (world m')) (elements m' p) \<and>
              set (elements m' c) \<inter> set (elements m' p) = {} \<and>
              (to_array c o1 m' = Inr (a1, n1) \<longrightarrow> to_array p o2 m' = Inr (a2, n2) \<longrightarrow>
                 (elements m p = [] \<longrightarrow> a1 = NULL \<and> a2 = NULL) \<and>
                 (elements m p \<noteq> [] \<longrightarrow>
                    (\<exists>xs ys. arrays n1 a1 = Some xs \<and> arrays n2 a2 = Some ys \<and>
                       length xs = size_of m p \<and> length ys = size_of m p \<and>
                       map (val (world n1)) xs = map (val (world n2)) ys)))"
      if con: "copy_contract live val (s_copy s)" and sub: "set ?es \<subseteq> live ?w"
    proof -
      from copy_all_contract[OF con sub]
      have k: "map (val ?w') ?cs = map (val ?w) ?es" "live ?w \<subseteq> live ?w'"
        "\<forall>r\<in>live ?w. val ?w' r = val ?w r" "set ?cs \<subseteq> live ?w' - live ?w"
        by simp_all
      have fr: "map (val ?w') ?es = map (val ?w) ?es" using k(3) sub by auto
      have v: "map (val (world m')) (elements m' c) = map (val (world m')) (elements m' p)"
        unfolding cs(5,6) ep using k(1) fr by simp
      have dj: "set (elements m' c) \<inter> set (elements m' p) = {}"
        unfolding cs(5) ep using k(4) sub by auto
      have lcs: "length ?cs = size_of m p"
        using observers_abs(4)[OF assms(1)] by (simp add: length_copy_all)
      have ta: "(elements m p = [] \<longrightarrow> a1 = NULL \<and> a2 = NULL) \<and>
                 (elements m p \<noteq> [] \<longrightarrow>
                    (\<exists>xs ys. arrays n1 a1 = Some xs \<and> arrays n2 a2 = Some ys \<and>
                       length xs = size_of m p \<and> length ys = size_of m p \<and>
                       map (val (world n1)) xs = map (val (world n2)) ys))"
        if t1: "to_array c o1 m' = Inr (a1, n1)" and t2: "to_array p o2 m' = Inr (a2, n2)"
      proof -
        from cs(4) assms(2) obtain sc where sc: "structs m' c = Some sc" "s_copy sc = s_copy s"
          by (auto simp: ops_of_def split: option.splits)
        have sp: "structs m' p = Some s" using cs(2) assms(2) by simp
        note r1 = to_array_result[OF okc sc(1) t1]
        note r2 = to_array_result[OF okp sp t2]
        have e: "?es = [] \<Longrightarrow> elements m' c = []" unfolding cs(5) by simp
        have n: "?es \<noteq> [] \<Longrightarrow> elements m' c \<noteq> []"
          unfolding cs(5) using length_copy_all[of "s_copy s" ?es ?w] by (metis length_0_conv)
        have emp: "?es = [] \<longrightarrow> a1 = NULL \<and> a2 = NULL"
          using r1(1) r2(1) e ep by simp
        have non: "\<exists>xs ys. arrays n1 a1 = Some xs \<and> arrays n2 a2 = Some ys \<and>
                       length xs = size_of m p \<and> length ys = size_of m p \<and>
                       map (val (world n1)) xs = map (val (world n2)) ys" if ne: "?es \<noteq> []"
        proof -
          let ?xs = "fst (copy_all (s_copy s) ?cs ?w')"
            and ?ys = "fst (copy_all (s_copy s) ?es ?w')"
          from r1(2)[OF n[OF ne]] have x: "arrays n1 a1 = Some ?xs"
            "world n1 = snd (copy_all (s_copy s) ?cs ?w')"
            unfolding sc(2) cs(5,6) by simp_all
          from r2(2) ne ep have y: "arrays n2 a2 = Some ?ys"
            "world n2 = snd (copy_all (s_copy s) ?es ?w')"
            unfolding cs(6) by simp_all
          have subc: "set ?cs \<subseteq> live ?w'" using k(4) by auto
          have sube: "set ?es \<subseteq> live ?w'" using k(2) sub by auto
          from copy_all_contract[OF con subc]
          have vx: "map (val (world n1)) ?xs = map (val ?w') ?cs"
            unfolding x(2) by simp
          from copy_all_contract[OF con sube]
          have vy: "map (val (world n2)) ?ys = map (val ?w') ?es"
            unfolding y(2) by simp
          have "map (val (world n1)) ?xs = map (val (world n2)) ?ys"
            unfolding vx vy k(1) fr ..
          with x(1) y(1) lcs show ?thesis
            using observers_abs(4)[OF assms(1)] by (simp add: length_copy_all)
        qed
        with emp show ?thesis by blast
      qed
      with v dj show ?thesis by blast
    qed
    from nn ne okc okp cs(4,5,6,2,3) dn u1 r1 m1 u2 r2 m2 ct show ?thesis by blast
  qed
  from nub ret rest show ?thesis by blast
qed

text \<open>
  The clone of the stack of nine elements: \<^verbatim>\<open>clone\<close> grows the buffer of the clone on
  the way. Ten calls on either stack, which take it from 9 to 17 elements and grow its
  buffer from 16 to 32 slots, leave the other stack as it is.
\<close>

theorem clone_independent_witness:
  "stack_ok mem9 1 \<and> size_of mem9 1 = 9 \<and> capacity_of mem9 1 = 16 \<and>
   clone 1 mem9 = Inr (4, mem10) \<and>
   copy_contract int_live int_at int_copy \<and> set (elements mem9 1) \<subseteq> int_live (world mem9) \<and>
   ops_of mem10 4 = ops_of mem9 1 \<and>
   elements mem10 4 = [13, 14, 15, 16, 17, 18, 19, 20, 21] \<and>
   elements mem10 1 = [4, 5, 6, 7, 8, 9, 10, 11, 12] \<and>
   capacity_of mem10 4 = 16 \<and> data_of mem10 4 = 6 \<and> data_of mem10 1 = 3 \<and>
   map (int_at (world mem10)) (elements mem10 4) = map (int_at (world mem10)) (elements mem10 1) \<and>
   (case mutate 4 [Pop, Push 1, Push 2, Push 3, Push 1, Push 2, Push 3, Push 1, Push 2, Push 3]
           mem10 of
      Inl e \<Rightarrow> False
    | Inr m1 \<Rightarrow> size_of m1 4 = 17 \<and> capacity_of m1 4 = 32 \<and>
               structs m1 1 = structs mem10 1 \<and> buffer m1 1 = buffer mem10 1) \<and>
   (case mutate 1 [Pop, Push 1, Push 2, Push 3, Push 1, Push 2, Push 3, Push 1, Push 2, Push 3]
           mem10 of
      Inl e \<Rightarrow> False
    | Inr m2 \<Rightarrow> size_of m2 1 = 17 \<and> capacity_of m2 1 = 32 \<and>
               structs m2 4 = structs mem10 4 \<and> buffer m2 4 = buffer mem10 4) \<and>
   (case to_array 4 NULL mem10 of
      Inl e \<Rightarrow> False
    | Inr (a1, n1) \<Rightarrow>
        (case to_array 1 NULL mem10 of
           Inl e \<Rightarrow> False
         | Inr (a2, n2) \<Rightarrow>
             (\<exists>xs ys. arrays n1 a1 = Some xs \<and> arrays n2 a2 = Some ys \<and>
                length xs = 9 \<and> length ys = 9 \<and>
                map (int_at (world n1)) xs = map (int_at (world n2)) ys)))"
proof -
  let ?ms = "[Pop, Push 1, Push 2, Push 3, Push 1, Push 2, Push 3, Push 1, Push 2, Push 3]"
  note g = clone_independent[OF mem9_ok(1,3)]
  have sz: "size_of mem9 1 = 9" "capacity_of mem9 1 = 16" "avail mem9 = 3920"
    by (simp_all add: abs_defs mem9_def ex_stack_def)
  have "STACK_BYTES + STACK_INITIAL_CAPACITY * PTR_BYTES + 24 * size_of mem9 1 \<le> avail mem9 \<and>
        16 * size_of mem9 1 + 64 \<le> PTRDIFF_MAX"
    unfolding sz by (simp add: c_consts)
  with g[THEN conjunct2, THEN conjunct1] have "\<exists>c m'. clone 1 mem9 = Inr (c, m')" by blast
  note t = g[THEN conjunct2, THEN conjunct2, rule_format, OF mem10_reached]
  have l: "length ?ms = 10" by simp
  have a4: "24 * (size_of mem10 4 + length ?ms) + 64
              \<le> avail mem10 + PTR_BYTES * capacity_of mem10 4 \<and>
            16 * (size_of mem10 4 + length ?ms) + 64 \<le> PTRDIFF_MAX"
    unfolding l mem10_ok(7,9,11) by (simp add: c_consts)
  have a1: "24 * (size_of mem10 1 + length ?ms) + 64
              \<le> avail mem10 + PTR_BYTES * capacity_of mem10 1 \<and>
            16 * (size_of mem10 1 + length ?ms) + 64 \<le> PTRDIFF_MAX"
    unfolding l mem10_ok(8,10,11) by (simp add: c_consts)
  from t[where ?ms1.0 = ?ms] a4 obtain m1 where mu1: "mutate 4 ?ms mem10 = Inr m1" by blast
  from t[where ?ms2.0 = ?ms] a1 obtain m2 where mu2: "mutate 1 ?ms mem10 = Inr m2" by blast
  have e1: "size_of m1 4 = 17 \<and> capacity_of m1 4 = 32"
    using mu1 by (simp add: run_defs mem10_def ex_stack_def abs_defs Suc_Suc_0) auto
  have e2: "size_of m2 1 = 17 \<and> capacity_of m2 1 = 32"
    using mu2 by (simp add: run_defs mem10_def ex_stack_def abs_defs Suc_Suc_0) auto
  from t mu1 have f2: "structs m1 1 = structs mem10 1 \<and> buffer m1 1 = buffer mem10 1" by blast
  from t mu2 have f3: "structs m2 4 = structs mem10 4 \<and> buffer m2 4 = buffer mem10 4" by blast
  have nz: "s_size (ex_stack\<lparr>s_data := 6, s_size := 9, s_capacity := 16\<rparr>) \<noteq> 0"
    "s_size (ex_stack\<lparr>s_data := 3, s_size := 9, s_capacity := 16\<rparr>) \<noteq> 0"
    by simp_all
  obtain a1 n1 where t1: "to_array 4 NULL mem10 = Inr (a1, n1)"
    unfolding to_array_spec[OF mem10_ok(1,3) nz(1)]
    by (simp add: ex_stack_def mem10_def c_consts)
  obtain a2 n2 where t2: "to_array 1 NULL mem10 = Inr (a2, n2)"
    unfolding to_array_spec[OF mem10_ok(2,4) nz(2)]
    by (simp add: ex_stack_def mem10_def c_consts)
  have sub: "set (elements mem9 1) \<subseteq> int_live (world mem9)"
    unfolding mem9_ok(2) by (simp add: int_live_def mem9_def)
  have s: "s_copy (ex_stack\<lparr>s_data := 3, s_size := 9, s_capacity := 16\<rparr>) = int_copy"
    by (simp add: ex_stack_def)
  have ne: "elements mem9 1 \<noteq> []" unfolding mem9_ok(2) by simp
  note tc = t[where live = int_live and val = int_at and ?o1.0 = NULL and ?a1.0 = a1
      and ?n1.0 = n1 and ?o2.0 = NULL and ?a2.0 = a2 and ?n2.0 = n2, unfolded s]
  from tc have f1: "ops_of mem10 4 = ops_of mem9 1" by blast
  from tc int_copy_contract sub
  have f4: "map (int_at (world mem10)) (elements mem10 4) =
            map (int_at (world mem10)) (elements mem10 1)" by blast
  from tc int_copy_contract sub t1 t2 ne
  have f5: "\<exists>xs ys. arrays n1 a1 = Some xs \<and> arrays n2 a2 = Some ys \<and>
                length xs = size_of mem9 1 \<and> length ys = size_of mem9 1 \<and>
                map (int_at (world n1)) xs = map (int_at (world n2)) ys" by blast
  have d: "data_of mem10 4 = 6" "data_of mem10 1 = 3"
    by (simp_all add: data_of_def mem10_def ex_stack_def)
  have c1: "case mutate 4 ?ms mem10 of
      Inl e \<Rightarrow> False
    | Inr m1 \<Rightarrow> size_of m1 4 = 17 \<and> capacity_of m1 4 = 32 \<and>
               structs m1 1 = structs mem10 1 \<and> buffer m1 1 = buffer mem10 1"
    unfolding mu1 using e1 f2 by simp
  have c2: "case mutate 1 ?ms mem10 of
      Inl e \<Rightarrow> False
    | Inr m2 \<Rightarrow> size_of m2 1 = 17 \<and> capacity_of m2 1 = 32 \<and>
               structs m2 4 = structs mem10 4 \<and> buffer m2 4 = buffer mem10 4"
    unfolding mu2 using e2 f3 by simp
  have c3: "case to_array 4 NULL mem10 of
      Inl e \<Rightarrow> False
    | Inr (a1, n1) \<Rightarrow>
        (case to_array 1 NULL mem10 of
           Inl e \<Rightarrow> False
         | Inr (a2, n2) \<Rightarrow>
             (\<exists>xs ys. arrays n1 a1 = Some xs \<and> arrays n2 a2 = Some ys \<and>
                length xs = 9 \<and> length ys = 9 \<and>
                map (int_at (world n1)) xs = map (int_at (world n2)) ys))"
    unfolding t1 t2 using f5 unfolding sz(1) by simp
  from mem9_ok(1) sz(1,2) mem10_reached int_copy_contract sub f1 mem10_ok(5,6,9) d f4 c1 c2 c3
  show ?thesis by blast
qed

text \<open>
  \<^bold>\<open>C4\<close>. \<^verbatim>\<open>reverse\<close> changes nothing but the contents of the stack's buffer, where the
  live slots \<open>0..size-1\<close> appear in reverse order and the slots from \<open>size\<close> on are as
  they were: the struct (size, capacity, \<^verbatim>\<open>data\<close> pointer), the world of the elements
  and the allocator are untouched, so no element is copied, released or re-allocated.
  On an empty stack it changes nothing at all, and a second \<^verbatim>\<open>reverse\<close> gives back the
  memory before the first.
\<close>

theorem reverse_in_place:
  assumes "stack_ok m p" and "structs m p = Some s"
  shows "\<exists>m'. reverse p m = Inr m' \<and>
           m' = m\<lparr>arrays := (arrays m)
                  (s_data s \<mapsto> rev (elements m p) @ drop (size_of m p) (buffer m p))\<rparr> \<and>
           elements m' p = rev (elements m p) \<and>
           size_stack p m' = size_stack p m \<and> capacity p m' = capacity p m \<and>
           (elements m p = [] \<longrightarrow> m' = m) \<and>
           reverse p m' = Inr m"
proof -
  from assms obtain buf where b: "arrays m (s_data s) = Some buf"
    "length buf = s_capacity s" "s_size s \<le> s_capacity s" "p \<noteq> NULL" "p \<le> brk m"
    by (auto elim!: stack_okE)
  let ?es = "elements m p"
  let ?buf' = "rev ?es @ drop (size_of m p) (buffer m p)"
  let ?m' = "m\<lparr>arrays := (arrays m)(s_data s \<mapsto> ?buf')\<rparr>"
  have sz: "size_of m p = s_size s" and bf: "buffer m p = buf" and es: "?es = take (s_size s) buf"
    using assms(2) b by (simp_all add: abs_defs)
  have len: "length ?buf' = length buf" using b by (simp add: es sz bf)
  have ok': "stack_ok ?m' p"
    using assms b len by (auto simp: stack_ok_def split: option.splits)
  have st': "structs ?m' p = Some s" using assms(2) by simp
  have e': "elements ?m' p = rev ?es"
    using assms(2) b by (simp add: abs_defs)
  have bf': "buffer ?m' p = ?buf'" "size_of ?m' p = s_size s"
    using assms(2) by (simp_all add: abs_defs)
  have restored: "rev (elements ?m' p) @ drop (size_of ?m' p) (buffer ?m' p) = buf"
    unfolding e' bf' using b by (simp add: es sz bf)
  have again: "reverse p ?m' = Inr m"
    unfolding reverse_spec[OF ok' st'] restored using b(1) by (simp add: mem_arrays_triv)
  have noop: "?es = [] \<longrightarrow> ?m' = m"
  proof
    assume "?es = []"
    with b es have "s_size s = 0" by auto
    then show "?m' = m" using b by (simp add: es sz bf mem_arrays_triv)
  qed
  have obs: "size_stack p ?m' = size_stack p m" "capacity p ?m' = capacity p m"
    using observers_abs[OF ok'] observers_abs[OF assms(1)] assms(2) by (simp_all add: abs_defs)
  show ?thesis
    unfolding reverse_spec[OF assms] using e' again noop obs by blast
qed

theorem reverse_in_place_witness:
  "stack_ok mem2 1 \<and> stack_ok mem1 1 \<and>
   (case reverse 1 mem2 of
      Inl e \<Rightarrow> False
    | Inr m' \<Rightarrow>
        m' = mem2\<lparr>arrays := [2 \<mapsto> [6, 5, 4, 0, 0, 0, 0, 0]]\<rparr> \<and>
        elements m' 1 = [6, 5, 4] \<and> size_stack 1 m' = Inr 3 \<and> capacity 1 m' = Inr 8 \<and>
        reverse 1 m' = Inr mem2) \<and>
   reverse 1 mem1 = Inr mem1"
proof -
  from reverse_in_place[OF mem2_ok(1,3)] obtain m' where
    c: "reverse 1 mem2 = Inr m'"
      "m' = mem2\<lparr>arrays := (arrays mem2)
             (s_data (ex_stack\<lparr>s_size := 3\<rparr>) \<mapsto>
                rev (elements mem2 1) @ drop (size_of mem2 1) (buffer mem2 1))\<rparr>"
      "elements m' 1 = rev (elements mem2 1)"
      "size_stack 1 m' = size_stack 1 mem2" "capacity 1 m' = capacity 1 mem2"
      "reverse 1 m' = Inr mem2"
    by blast
  have m': "m' = mem2\<lparr>arrays := [2 \<mapsto> [6, 5, 4, 0, 0, 0, 0, 0]]\<rparr>"
    unfolding c(2) mem2_ok(2) by (simp add: ex_stack_def mem2_def abs_defs)
  have obs: "size_stack 1 mem2 = Inr 3" "capacity 1 mem2 = Inr 8"
    by (simp_all add: size_stack_def capacity_def mem2_def ex_stack_def NULL_def)
  from reverse_in_place[OF mem1_ok(1,3)] mem1_ok(2) have e: "reverse 1 mem1 = Inr mem1"
    by auto
  show ?thesis using c(1,3,4,5,6) m' obs e mem1_ok(1) mem2_ok(1,2) by simp
qed

text \<open>
  \<^bold>\<open>C5\<close>. On a stack with a comparison function \<open>f\<close>, \<^verbatim>\<open>contains\<close> returns true exactly
  when some live element \<open>e\<close> has \<open>f e x = 0\<close>; so it returns false for every \<open>x\<close> on an
  empty stack.
\<close>

theorem contains_iff:
  assumes "stack_ok m p" and "structs m p = Some s" and "s_cmp s = Some f"
  shows "contains p x m = Inr (\<exists>e\<in>set (elements m p). f e x (world m) = 0) \<and>
         (elements m p = [] \<longrightarrow> contains p x m = Inr False)"
proof -
  from assms obtain buf where b: "arrays m (s_data s) = Some buf"
    "length buf = s_capacity s" "s_size s \<le> s_capacity s" "p \<noteq> NULL"
    by (auto elim!: stack_okE)
  from b have le: "s_size s \<le> length buf" by simp
  have es: "elements m p = take (s_size s) buf" using assms(2) b by (simp add: abs_defs)
  have "(\<exists>j. 0 \<le> j \<and> j < s_size s \<and> f (buf ! j) x (world m) = 0) =
        (\<exists>e\<in>set (elements m p). f e x (world m) = 0)"
    unfolding es nth_image[OF le, symmetric] by auto
  then have c: "contains p x m = Inr (\<exists>e\<in>set (elements m p). f e x (world m) = 0)"
    using b by (simp add: contains_def contains_loop_spec[OF assms(2) b(1) le assms(3)])
  then show ?thesis by auto
qed

theorem contains_iff_witness:
  "stack_ok mem2 1 \<and> stack_ok mem1 1 \<and> s_cmp ex_stack = Some int_cmp \<and>
   contains 1 2 mem2 = Inr True \<and> contains 1 7 mem2 = Inr False \<and>
   contains 1 2 mem1 = Inr False"
proof -
  have f: "s_cmp (ex_stack\<lparr>s_size := 3\<rparr>) = Some int_cmp" "s_cmp ex_stack = Some int_cmp"
    by (simp_all add: ex_stack_def)
  note c2 = contains_iff[OF mem2_ok(1,3) f(1)]
  note c1 = contains_iff[OF mem1_ok(1,3) f(2)]
  have t: "contains 1 2 mem2 = Inr True"
    using c2[of 2] unfolding mem2_ok(2) by (simp add: mem2_def int_cmp_def int_at_def)
  have n: "contains 1 7 mem2 = Inr False"
    using c2[of 7] unfolding mem2_ok(2) by (simp add: mem2_def int_cmp_def int_at_def)
  have e: "contains 1 2 mem1 = Inr False"
    using c1[of 2] mem1_ok(2) by simp
  show ?thesis using t n e f mem1_ok(1) mem2_ok(1) by simp
qed



text \<open>
  \<^bold>\<open>C7\<close>. \<^verbatim>\<open>clear\<close> runs the release function on the live elements, each once, from
  index 0 to \<open>size - 1\<close> (the world afterwards is the fold of the release function over
  the live elements), then \<^verbatim>\<open>size\<close> is 0 and \<^verbatim>\<open>capacity\<close> is what it was. On an empty
  stack \<^verbatim>\<open>clear\<close> changes nothing, and a second \<^verbatim>\<open>clear\<close> changes nothing after the
  first.
\<close>

theorem clear_releases_all:
  assumes "stack_ok m p" and "structs m p = Some s"
  shows "\<exists>m'. clear p m = Inr m' \<and>
           world m' = foldl (\<lambda>w e. s_free_func s e w) (world m) (elements m p) \<and>
           size_stack p m' = Inr 0 \<and> is_empty p m' = Inr True \<and>
           capacity p m' = capacity p m \<and>
           (elements m p = [] \<longrightarrow> m' = m) \<and> clear p m' = Inr m'"
proof -
  let ?m' = "m\<lparr>world := foldl (\<lambda>w e. s_free_func s e w) (world m) (elements m p),
               structs := (structs m)(p \<mapsto> s\<lparr>s_size := 0\<rparr>)\<rparr>"
  note c = clear_spec[OF assms]
  have ok': "stack_ok ?m' p"
    using assms by (auto simp: stack_ok_def split: option.splits)
  have st': "structs ?m' p = Some (s\<lparr>s_size := 0\<rparr>)" by simp
  have e': "elements ?m' p = []" by (simp add: abs_defs)
  have again: "clear p ?m' = Inr ?m'"
    unfolding clear_spec[OF ok' st'] e' by simp
  have noop: "elements m p = [] \<longrightarrow> ?m' = m"
  proof
    assume e: "elements m p = []"
    with assms have "s_size s = 0"
      using observers_abs(4)[OF assms(1)] by (simp add: size_of_def)
    then have "s\<lparr>s_size := 0\<rparr> = s" by simp
    with e assms(2) show "?m' = m" by (simp add: map_upd_triv)
  qed
  have obs: "size_stack p ?m' = Inr 0" "is_empty p ?m' = Inr True"
    "capacity p ?m' = capacity p m"
    using observers_abs[OF ok'] observers_abs[OF assms(1)] assms(2) by (simp_all add: abs_defs)
  show ?thesis unfolding c using again noop obs by simp
qed

theorem clear_releases_all_witness:
  "stack_ok mem2 1 \<and> stack_ok mem1 1 \<and> stack_ok mem_log 1 \<and>
   (case clear 1 mem2 of
      Inl e \<Rightarrow> False
    | Inr m' \<Rightarrow>
        world m' = [Some 10, Some 20, Some 30, None, None, None] \<and>
        size_stack 1 m' = Inr 0 \<and> is_empty 1 m' = Inr True \<and>
        capacity 1 m' = Inr 8 \<and> clear 1 m' = Inr m') \<and>
   clear 1 mem1 = Inr mem1 \<and>
   (case clear 1 mem_log of Inl e \<Rightarrow> False | Inr m' \<Rightarrow> world m' = [4, 5, 6])"
proof -
  from clear_releases_all[OF mem2_ok(1,3)] obtain m' where
    c: "clear 1 mem2 = Inr m'"
      "world m' = foldl (\<lambda>w e. s_free_func (ex_stack\<lparr>s_size := 3\<rparr>) e w) (world mem2)
                    (elements mem2 1)"
      "size_stack 1 m' = Inr 0" "is_empty 1 m' = Inr True"
      "capacity 1 m' = capacity 1 mem2" "clear 1 m' = Inr m'"
    by blast
  have w: "world m' = [Some 10, Some 20, Some 30, None, None, None]"
    unfolding c(2) mem2_ok(2) by (simp add: ex_stack_def mem2_def int_free_def)
  have cap: "capacity 1 mem2 = Inr 8"
    by (simp add: capacity_def mem2_def ex_stack_def NULL_def)
  from clear_releases_all[OF mem1_ok(1,3)] mem1_ok(2) have e: "clear 1 mem1 = Inr mem1"
    by auto
  from clear_releases_all[OF mem_log_ok(1,3)] obtain ml where
    l: "clear 1 mem_log = Inr ml"
      "world ml = foldl (\<lambda>w e. s_free_func log_stack e w) (world mem_log) (elements mem_log 1)"
    by blast
  have wl: "world ml = [4, 5, 6]"
    unfolding l(2) mem_log_ok(2) by (simp add: log_stack_def mem_log_def log_free_def)
  show ?thesis using c w cap e l(1) wl mem1_ok(1) mem2_ok(1) mem_log_ok(1) by simp
qed

text \<open>
  \<^bold>\<open>C8\<close>. On a stack whose \<^verbatim>\<open>size\<close> is 0, \<^verbatim>\<open>pop\<close> and \<^verbatim>\<open>peek\<close> return \<^verbatim>\<open>NULL\<close> as an
  ordinary result, and \<^verbatim>\<open>pop\<close> leaves the whole memory as it was, size and capacity
  included (\<^verbatim>\<open>peek\<close> takes a \<^verbatim>\<open>const Stack *\<close> and returns no memory).
\<close>

theorem pop_peek_empty:
  assumes "structs m p = Some s" and "s_size s = 0"
  shows "pop p m = Inr (NULL, m) \<and> peek p m = Inr NULL"
  using assms by (simp add: pop_def peek_def)

theorem pop_peek_empty_witness:
  "case new_stack int_copy int_free (Some int_cmp) mem0 of
     Inl e \<Rightarrow> False
   | Inr (p, m) \<Rightarrow>
       (case structs m p of
          None \<Rightarrow> False
        | Some s \<Rightarrow> s_size s = 0 \<and> pop p m = Inr (NULL, m) \<and> peek p m = Inr NULL)"
proof -
  obtain p m where n: "new_stack int_copy int_free (Some int_cmp) mem0 = Inr (p, m)"
    using new_stack_succeeds[of mem0 int_copy int_free "Some int_cmp"]
    by (auto simp: mem0_def c_consts)
  from new_stack_spec[OF n] obtain s where s: "structs m p = Some s" "s_size s = 0"
    by simp
  from pop_peek_empty[OF s] s show ?thesis by (simp add: n)
qed

text \<open>
  \<^bold>\<open>C9\<close>, as stated, fails. The stack of \<open>mem2\<close> has its three live slots not \<^verbatim>\<open>NULL\<close>
  and its five unused slots \<^verbatim>\<open>NULL\<close>; \<^verbatim>\<open>clear\<close> sets \<^verbatim>\<open>size\<close> to 0 and leaves the three
  released pointers in the slots 0 to 2, which are now unused and not \<^verbatim>\<open>NULL\<close>. And
  \<^verbatim>\<open>new_stack\<close> takes its buffer from \<^verbatim>\<open>malloc\<close> and writes no slot: when the storage
  is not zeroed, the unused slots of a new stack are not \<^verbatim>\<open>NULL\<close>.
\<close>

theorem buffer_invariant_counterexample:
  "claimed_buffer_inv mem2 1 \<and>
   clear 1 mem2 =
     Inr (mem2\<lparr>world := [Some 10, Some 20, Some 30, None, None, None],
               structs := [1 \<mapsto> ex_stack]\<rparr>) \<and>
   \<not> claimed_buffer_inv
        (mem2\<lparr>world := [Some 10, Some 20, Some 30, None, None, None],
              structs := [1 \<mapsto> ex_stack]\<rparr>) 1 \<and>
   new_stack int_copy int_free (Some int_cmp) (mem0\<lparr>junk := dirty\<rparr>) =
     Inr (1, mem1\<lparr>junk := dirty, arrays := [2 \<mapsto> [7, 7, 7, 7, 7, 7, 7, 7]]\<rparr>) \<and>
   \<not> claimed_buffer_inv (mem1\<lparr>junk := dirty, arrays := [2 \<mapsto> [7, 7, 7, 7, 7, 7, 7, 7]]\<rparr>) 1"
proof -
  have a: "claimed_buffer_inv mem2 1"
    unfolding claimed_buffer_inv_def using mem2_ok(1)
    by (simp add: mem2_def ex_stack_def abs_defs NULL_def)
  have b: "clear 1 mem2 =
     Inr (mem2\<lparr>world := [Some 10, Some 20, Some 30, None, None, None],
               structs := [1 \<mapsto> ex_stack]\<rparr>)"
    unfolding clear_spec[OF mem2_ok(1,3)] mem2_ok(2)
    by (simp add: mem2_def ex_stack_def int_free_def)
  have c: "\<not> claimed_buffer_inv
        (mem2\<lparr>world := [Some 10, Some 20, Some 30, None, None, None],
              structs := [1 \<mapsto> ex_stack]\<rparr>) 1"
    by (simp add: claimed_buffer_inv_def mem2_def ex_stack_def abs_defs NULL_def)
  have d: "new_stack int_copy int_free (Some int_cmp) (mem0\<lparr>junk := dirty\<rparr>) =
     Inr (1, mem1\<lparr>junk := dirty, arrays := [2 \<mapsto> [7, 7, 7, 7, 7, 7, 7, 7]]\<rparr>)"
    by (simp add: run_defs mem0_def mem1_def ex_stack_def upt8 Suc_Suc_0 dirty_def)
  have e: "\<not> claimed_buffer_inv
        (mem1\<lparr>junk := dirty, arrays := [2 \<mapsto> [7, 7, 7, 7, 7, 7, 7, 7]]\<rparr>) 1"
    by (simp add: claimed_buffer_inv_def mem1_def ex_stack_def abs_defs NULL_def)
  from a b c d e show ?thesis by blast
qed

text \<open>
  \<^bold>\<open>C9\<close>, amended. Every operation keeps the stack well formed (\<^verbatim>\<open>size\<close> at most
  \<^verbatim>\<open>capacity\<close>, which is the number of slots of the buffer) and its functions in place,
  and, when the copy function never returns \<^verbatim>\<open>NULL\<close>, the slots below \<^verbatim>\<open>size\<close> not
  \<^verbatim>\<open>NULL\<close>; this holds for a new stack, after a \<^verbatim>\<open>push\<close> that grows the buffer, and for
  both stacks after \<^verbatim>\<open>clone\<close>. A \<^verbatim>\<open>pop\<close> on a non-empty stack returns a pointer that is
  not \<^verbatim>\<open>NULL\<close> and leaves \<^verbatim>\<open>NULL\<close> in the slot it vacated. Nothing is said of the other
  slots from \<^verbatim>\<open>size\<close> on.
\<close>

theorem live_slots_invariant:
  assumes "live_inv m p" and "ops_of m p = Some (cf, ff, cmpf)"
    and "\<forall>e w. fst (cf e w) \<noteq> NULL"
  shows "(push p x m = Inr m1 \<longrightarrow> live_inv m1 p \<and> ops_of m1 p = ops_of m p) \<and>
         (pop p m = Inr (y, m2) \<longrightarrow>
            live_inv m2 p \<and> ops_of m2 p = ops_of m p \<and>
            (elements m p \<noteq> [] \<longrightarrow> y \<noteq> NULL \<and> buffer m2 p ! size_of m2 p = NULL)) \<and>
         (clear p m = Inr m3 \<longrightarrow> live_inv m3 p \<and> ops_of m3 p = ops_of m p) \<and>
         (reverse p m = Inr m4 \<longrightarrow> live_inv m4 p \<and> ops_of m4 p = ops_of m p) \<and>
         (to_array p out m = Inr (a, m5) \<longrightarrow> live_inv m5 p \<and> ops_of m5 p = ops_of m p) \<and>
         (clone p m = Inr (c, m6) \<longrightarrow>
            live_inv m6 p \<and> ops_of m6 p = ops_of m p \<and>
            live_inv m6 c \<and> ops_of m6 c = ops_of m p) \<and>
         (new_stack cf ff cmpf m0 = Inr (q, n1) \<longrightarrow>
            live_inv n1 q \<and> ops_of n1 q = Some (cf, ff, cmpf))"
proof -
  from assms(1) have ok: "stack_ok m p" and nn: "list_all (\<lambda>e. e \<noteq> NULL) (elements m p)"
    by (simp_all add: live_inv_def)
  from ok obtain s where st: "structs m p = Some s" by (auto elim!: stack_okE)
  from assms(2) st have cf: "s_copy s = cf" by (simp add: ops_of_def)
  note ops = ops_kept[OF ok]
  have pu: "live_inv m1 p" if p1: "push p x m = Inr m1"
  proof -
    note a = push_abs[OF ok st p1]
    from assms(3) cf have "fst (s_copy s x (world m)) \<noteq> NULL" by simp
    with a(1,2) nn show ?thesis by (simp add: live_inv_def)
  qed
  have po: "live_inv m2 p \<and>
            (elements m p \<noteq> [] \<longrightarrow> y \<noteq> NULL \<and> buffer m2 p ! size_of m2 p = NULL)"
    if p2: "pop p m = Inr (y, m2)"
  proof -
    note k = pop_keeps[OF ok p2]
    have "list_all (\<lambda>e. e \<noteq> NULL) (butlast (elements m p))"
      using nn by (auto simp: list_all_iff dest: in_set_butlastD)
    with k(1,3) have l: "live_inv m2 p" by (simp add: live_inv_def)
    have "y \<noteq> NULL" if ne: "elements m p \<noteq> []"
    proof -
      from pop_abs[OF ok ne] p2 have "y = last (elements m p)" by auto
      with nn ne show ?thesis by (auto simp: list_all_iff)
    qed
    with l k(4) show ?thesis by blast
  qed
  have cl: "live_inv m3 p" if "clear p m = Inr m3"
    using clear_keeps(1,3)[OF ok that] by (simp add: live_inv_def)
  have rv: "live_inv m4 p" if "reverse p m = Inr m4"
    using reverse_keeps(1,3)[OF ok that] nn by (simp add: live_inv_def)
  have ta: "live_inv m5 p" if "to_array p out m = Inr (a, m5)"
    using to_array_keeps(1,3)[OF ok that] nn by (simp add: live_inv_def)
  have cn: "live_inv m6 p \<and> live_inv m6 c" if c6: "clone p m = Inr (c, m6)"
  proof -
    note k = clone_keeps[OF ok c6]
    from k(5) st cf have "elements m6 c = fst (copy_all cf (elements m p) (world m))" by simp
    with copy_all_nonnull[OF assms(3)] k(1,3,4) nn show ?thesis by (simp add: live_inv_def)
  qed
  have ns: "live_inv n1 q \<and> ops_of n1 q = Some (cf, ff, cmpf)"
    if n: "new_stack cf ff cmpf m0 = Inr (q, n1)"
    using new_stack_abs(1,2,5)[OF n] by (simp add: live_inv_def)
  from pu po cl rv ta cn ns ops show ?thesis by blast
qed

theorem live_slots_invariant_witness:
  "live_inv mem2 1 \<and> ops_of mem2 1 = Some (int_copy, int_free, Some int_cmp) \<and>
   (\<forall>e w. fst (int_copy e w) \<noteq> NULL) \<and>
   (case push 1 1 mem2 of Inl e \<Rightarrow> False | Inr m1 \<Rightarrow> live_inv m1 1) \<and>
   (case pop 1 mem2 of
      Inl e \<Rightarrow> False
    | Inr (y, m2) \<Rightarrow> live_inv m2 1 \<and> y \<noteq> NULL \<and> buffer m2 1 ! size_of m2 1 = NULL) \<and>
   (case clear 1 mem2 of Inl e \<Rightarrow> False | Inr m3 \<Rightarrow> live_inv m3 1) \<and>
   (case reverse 1 mem2 of Inl e \<Rightarrow> False | Inr m4 \<Rightarrow> live_inv m4 1) \<and>
   (case to_array 1 NULL mem2 of Inl e \<Rightarrow> False | Inr (a, m5) \<Rightarrow> live_inv m5 1) \<and>
   (case clone 1 mem2 of Inl e \<Rightarrow> False | Inr (c, m6) \<Rightarrow> live_inv m6 1 \<and> live_inv m6 c) \<and>
   (case new_stack int_copy int_free (Some int_cmp) mem0 of
      Inl e \<Rightarrow> False
    | Inr (q, n1) \<Rightarrow> live_inv n1 q)"
proof -
  have li: "live_inv mem2 1"
    unfolding live_inv_def mem2_ok(2) using mem2_ok(1) by (simp add: NULL_def)
  have ops: "ops_of mem2 1 = Some (int_copy, int_free, Some int_cmp)"
    by (simp add: ops_of_def mem2_def ex_stack_def)
  have nn: "\<forall>e w. fst (int_copy e w) \<noteq> NULL" by (simp add: int_copy_def NULL_def)
  have cap: "size_of mem2 1 < capacity_of mem2 1"
    by (simp add: abs_defs mem2_def ex_stack_def)
  obtain m1 where p1: "push 1 1 mem2 = Inr m1"
    using push_succeeds[OF mem2_ok(1)] cap by auto
  obtain y m2 where po: "pop 1 mem2 = Inr (y, m2)"
    using pop_abs[OF mem2_ok(1)] mem2_ok(2) by auto
  obtain m3 where cl: "clear 1 mem2 = Inr m3"
    using clear_spec[OF mem2_ok(1,3)] by simp
  obtain m4 where rv: "reverse 1 mem2 = Inr m4"
    using reverse_spec[OF mem2_ok(1,3)] by simp
  have nz: "s_size (ex_stack\<lparr>s_size := 3\<rparr>) \<noteq> 0" by simp
  obtain a m5 where ta: "to_array 1 NULL mem2 = Inr (a, m5)"
    unfolding to_array_spec[OF mem2_ok(1,3) nz] by (simp add: ex_stack_def mem2_def c_consts)
  have ne: "elements mem2 1 \<noteq> []" unfolding mem2_ok(2) by simp
  note t = live_slots_invariant[OF li ops nn, where x = 1 and ?m1.0 = m1 and y = y and ?m2.0 = m2
      and ?m3.0 = m3 and ?m4.0 = m4 and out = NULL and a = a and ?m5.0 = m5 and c = 3
      and ?m6.0 = mem3 and ?m0.0 = mem0 and q = 1 and ?n1.0 = mem1]
  from t p1 po cl rv ta mem3_reached mem1_reached ne
  have f: "live_inv m1 1" "live_inv m2 1 \<and> y \<noteq> NULL \<and> buffer m2 1 ! size_of m2 1 = NULL"
    "live_inv m3 1" "live_inv m4 1" "live_inv m5 1" "live_inv mem3 1 \<and> live_inv mem3 3"
    "live_inv mem1 1"
    by simp_all
  show ?thesis
    using li ops nn f p1 po cl rv ta mem3_reached mem1_reached by simp
qed

text \<open>
  \<^bold>\<open>C10\<close>. With a \<^verbatim>\<open>NULL\<close> handle, \<^verbatim>\<open>push\<close> and \<^verbatim>\<open>clear\<close> do nothing, \<^verbatim>\<open>pop\<close>,
  \<^verbatim>\<open>peek\<close> and \<^verbatim>\<open>clone\<close> return \<^verbatim>\<open>NULL\<close>, \<^verbatim>\<open>is_empty\<close> returns true, \<^verbatim>\<open>size\<close> and
  \<^verbatim>\<open>capacity\<close> return 0 and \<^verbatim>\<open>contains\<close> returns false; none of them touches memory.
\<close>

theorem null_handle_is_empty_stack:
  "push NULL e m = Inr m \<and> clear NULL m = Inr m \<and> pop NULL m = Inr (NULL, m) \<and>
   peek NULL m = Inr NULL \<and> clone NULL m = Inr (NULL, m) \<and> is_empty NULL m = Inr True \<and>
   size_stack NULL m = Inr 0 \<and> capacity NULL m = Inr 0 \<and> contains NULL e m = Inr False"
  by (simp add: push_def clear_def pop_def peek_def clone_def is_empty_def size_stack_def
      capacity_def contains_def)

end
